theory Spec2Isabelle
  imports Complex_Main "HOL-Library.FSet"
begin

section \<open>Board engine\<close>

text \<open>
  The game logic module: a board is a JavaScript array of \<open>ROWS\<close> row arrays holding
  \<open>COLS\<close> numbers each; row 0 is the top. Indices and cell values are JavaScript
  numbers, modelled as \<open>int\<close> (the loops count down to \<open>-1\<close>).
\<close>

definition ROWS :: int where "ROWS = 6"
definition COLS :: int where "COLS = 7"
definition EMPTY :: int where "EMPTY = 0"
definition PLAYER_RED :: int where "PLAYER_RED = 1"
definition PLAYER_YELLOW :: int where "PLAYER_YELLOW = 2"

lemmas consts_defs = ROWS_def COLS_def EMPTY_def PLAYER_RED_def PLAYER_YELLOW_def

type_synonym board = "int list list"

text \<open>
  The shape every board of the program has: \<open>createBoard\<close> builds it and
  \<open>dropPiece\<close> keeps it. All theorems about reads are stated for boards of this shape.
\<close>

definition wf_board :: "board \<Rightarrow> bool" where
  "wf_board b \<longleftrightarrow> int (length b) = ROWS \<and> (\<forall>r \<in> set b. int (length r) = COLS)"

text \<open>
  The read \<open>board[row][col]\<close>. A column index outside the row array reads
  \<open>undefined\<close> in JavaScript, which is \<open>None\<close> here, so that
  \<open>board[row][col] === x\<close> is \<open>cellAt board row col = Some x\<close>. The source only ever
  reads rows \<open>0 .. ROWS-1\<close>, which exist on a board of the shape above (on a board with
  a row missing the JavaScript read throws; such boards are excluded by \<open>wf_board\<close>).
\<close>

definition cellAt :: "board \<Rightarrow> int \<Rightarrow> int \<Rightarrow> int option" where
  "cellAt b row col =
     (if 0 \<le> row \<and> row < int (length b) \<and> 0 \<le> col \<and> col < int (length (b ! nat row))
      then Some (b ! nat row ! nat col) else None)"

text \<open>The write \<open>board[row][col] = v\<close> (only ever applied to a cell that exists).\<close>

definition setCell :: "board \<Rightarrow> int \<Rightarrow> int \<Rightarrow> int \<Rightarrow> board" where
  "setCell b row col v = b[nat row := (b ! nat row)[nat col := v]]"

definition createBoard :: board where
  "createBoard = replicate (nat ROWS) (replicate (nat COLS) EMPTY)"

definition cloneBoard :: "board \<Rightarrow> board" where
  "cloneBoard b = map (\<lambda>row. row) b"

text \<open>\<open>for (let row = ROWS - 1; row >= 0; row--)\<close> with its early return.\<close>

function lowestEmptyFrom :: "board \<Rightarrow> int \<Rightarrow> int \<Rightarrow> int" where
  "lowestEmptyFrom b col row =
     (if row \<ge> 0
      then (if cellAt b row col = Some EMPTY then row else lowestEmptyFrom b col (row - 1))
      else - 1)"
  by pat_completeness auto
termination
  by (relation "measure (\<lambda>(b, col, row). nat (row + 1))") auto

declare lowestEmptyFrom.simps [simp del]

definition getLowestEmptyRow :: "board \<Rightarrow> int \<Rightarrow> int" where
  "getLowestEmptyRow b col = lowestEmptyFrom b col (ROWS - 1)"

definition isColumnFull :: "board \<Rightarrow> int \<Rightarrow> bool" where
  "isColumnFull b col \<longleftrightarrow> cellAt b 0 col \<noteq> Some EMPTY"

definition isBoardFull :: "board \<Rightarrow> bool" where
  "isBoardFull b \<longleftrightarrow> list_all (\<lambda>cell. cell \<noteq> EMPTY) (b ! 0)"

record dropResult =
  d_success :: bool
  d_row :: int
  d_board :: board

definition dropPiece :: "board \<Rightarrow> int \<Rightarrow> int \<Rightarrow> dropResult" where
  "dropPiece b col player =
     (if col < 0 \<or> col \<ge> COLS then \<lparr>d_success = False, d_row = - 1, d_board = b\<rparr>
      else let row = getLowestEmptyRow b col in
        if row = - 1 then \<lparr>d_success = False, d_row = - 1, d_board = b\<rparr>
        else let newBoard = setCell (cloneBoard b) row col player in
          \<lparr>d_success = True, d_row = row, d_board = newBoard\<rparr>)"

subsection \<open>Win detection\<close>

text \<open>
  The two loop headers of \<open>checkWin\<close>, \<open>for (let i = lo; i < hi; i++)\<close> and
  \<open>for (let i = lo; i <= hi; i++)\<close>, with a body that either returns a value from the
  enclosing function (\<open>Some\<close>) or falls through to the next iteration (\<open>None\<close>).
\<close>

function forLt :: "int \<Rightarrow> int \<Rightarrow> (int \<Rightarrow> 'a option) \<Rightarrow> 'a option" where
  "forLt i hi body =
     (if i < hi then (case body i of Some r \<Rightarrow> Some r | None \<Rightarrow> forLt (i + 1) hi body)
      else None)"
  by pat_completeness auto
termination
  by (relation "measure (\<lambda>(i, hi, body). nat (hi - i))") auto

declare forLt.simps [simp del]

function forLe :: "int \<Rightarrow> int \<Rightarrow> (int \<Rightarrow> 'a option) \<Rightarrow> 'a option" where
  "forLe i hi body =
     (if i \<le> hi then (case body i of Some r \<Rightarrow> Some r | None \<Rightarrow> forLe (i + 1) hi body)
      else None)"
  by pat_completeness auto
termination
  by (relation "measure (\<lambda>(i, hi, body). nat (hi + 1 - i))") auto

declare forLe.simps [simp del]

text \<open>A coordinate object \<open>{ row, col }\<close> is the pair \<open>(row, col)\<close>.\<close>

type_synonym coord = "int \<times> int"

record winResult =
  won :: bool
  cells :: "coord list"

definition checkHorizontal :: "board \<Rightarrow> int \<Rightarrow> coord list option" where
  "checkHorizontal b player =
     forLt 0 ROWS (\<lambda>row. forLe 0 (COLS - 4) (\<lambda>col.
       if cellAt b row col = Some player \<and>
          cellAt b row (col + 1) = Some player \<and>
          cellAt b row (col + 2) = Some player \<and>
          cellAt b row (col + 3) = Some player
       then Some [(row, col), (row, col + 1), (row, col + 2), (row, col + 3)]
       else None))"

definition checkVertical :: "board \<Rightarrow> int \<Rightarrow> coord list option" where
  "checkVertical b player =
     forLe 0 (ROWS - 4) (\<lambda>row. forLt 0 COLS (\<lambda>col.
       if cellAt b row col = Some player \<and>
          cellAt b (row + 1) col = Some player \<and>
          cellAt b (row + 2) col = Some player \<and>
          cellAt b (row + 3) col = Some player
       then Some [(row, col), (row + 1, col), (row + 2, col), (row + 3, col)]
       else None))"

definition checkDiagUp :: "board \<Rightarrow> int \<Rightarrow> coord list option" where
  "checkDiagUp b player =
     forLt 3 ROWS (\<lambda>row. forLe 0 (COLS - 4) (\<lambda>col.
       if cellAt b row col = Some player \<and>
          cellAt b (row - 1) (col + 1) = Some player \<and>
          cellAt b (row - 2) (col + 2) = Some player \<and>
          cellAt b (row - 3) (col + 3) = Some player
       then Some [(row, col), (row - 1, col + 1), (row - 2, col + 2), (row - 3, col + 3)]
       else None))"

definition checkDiagDown :: "board \<Rightarrow> int \<Rightarrow> coord list option" where
  "checkDiagDown b player =
     forLe 0 (ROWS - 4) (\<lambda>row. forLe 0 (COLS - 4) (\<lambda>col.
       if cellAt b row col = Some player \<and>
          cellAt b (row + 1) (col + 1) = Some player \<and>
          cellAt b (row + 2) (col + 2) = Some player \<and>
          cellAt b (row + 3) (col + 3) = Some player
       then Some [(row, col), (row + 1, col + 1), (row + 2, col + 2), (row + 3, col + 3)]
       else None))"

text \<open>The four scans of \<open>checkWin\<close> in the order of the source.\<close>

definition checkWin :: "board \<Rightarrow> int \<Rightarrow> winResult" where
  "checkWin b player =
     (case checkHorizontal b player of Some cs \<Rightarrow> \<lparr>won = True, cells = cs\<rparr> | None \<Rightarrow>
      (case checkVertical b player of Some cs \<Rightarrow> \<lparr>won = True, cells = cs\<rparr> | None \<Rightarrow>
      (case checkDiagUp b player of Some cs \<Rightarrow> \<lparr>won = True, cells = cs\<rparr> | None \<Rightarrow>
      (case checkDiagDown b player of Some cs \<Rightarrow> \<lparr>won = True, cells = cs\<rparr> | None \<Rightarrow>
       \<lparr>won = False, cells = []\<rparr>))))"

definition getOtherPlayer :: "int \<Rightarrow> int" where
  "getOtherPlayer player = (if player = PLAYER_RED then PLAYER_YELLOW else PLAYER_RED)"

section \<open>Game state machine\<close>

text \<open>An entry \<open>{ col, row, player }\<close> of \<open>moveHistory\<close>.\<close>

datatype move = Move (mv_col: int) (mv_row: int) (mv_player: int)

text \<open>
  The fields of class \<open>GameState\<close>; \<open>winner\<close> is \<open>null\<close> (\<open>None\<close>) or a player.
  Methods take the object and return it updated.
\<close>

record GameState =
  board :: board
  currentPlayer :: int
  winner :: "int option"
  winningCells :: "coord list"
  isDraw :: bool
  moveHistory :: "move list"
  gameOver :: bool

definition reset :: GameState where
  "reset = \<lparr>board = createBoard, currentPlayer = PLAYER_RED, winner = None,
            winningCells = [], isDraw = False, moveHistory = [], gameOver = False\<rparr>"

record moveResult =
  m_success :: bool
  m_row :: int
  m_winner :: "int option"
  m_winningCells :: "coord list"
  m_isDraw :: bool

definition makeMove :: "GameState \<Rightarrow> int \<Rightarrow> moveResult \<times> GameState" where
  "makeMove s col =
     (if gameOver s then
        (\<lparr>m_success = False, m_row = - 1, m_winner = None, m_winningCells = [],
          m_isDraw = False\<rparr>, s)
      else let result = dropPiece (board s) col (currentPlayer s) in
        if \<not> d_success result then
          (\<lparr>m_success = False, m_row = - 1, m_winner = None, m_winningCells = [],
            m_isDraw = False\<rparr>, s)
        else let s1 = s\<lparr>board := d_board result,
                         moveHistory := moveHistory s @ [Move col (d_row result) (currentPlayer s)]\<rparr>;
                 winResult = checkWin (board s1) (currentPlayer s1) in
          if won winResult then
            (let s2 = s1\<lparr>winner := Some (currentPlayer s1), winningCells := cells winResult,
                        gameOver := True\<rparr> in
             (\<lparr>m_success = True, m_row = d_row result, m_winner = winner s2,
               m_winningCells = winningCells s2, m_isDraw = False\<rparr>, s2))
          else if isBoardFull (board s1) then
            (\<lparr>m_success = True, m_row = d_row result, m_winner = None,
              m_winningCells = [], m_isDraw = True\<rparr>,
             s1\<lparr>isDraw := True, gameOver := True\<rparr>)
          else
            (\<lparr>m_success = True, m_row = d_row result, m_winner = None,
              m_winningCells = [], m_isDraw = False\<rparr>,
             s1\<lparr>currentPlayer := getOtherPlayer (currentPlayer s1)\<rparr>))"

text \<open>\<open>for (let col = 0; col < COLS; col++)\<close> pushing the columns that are not full.\<close>

function validColumnsFrom :: "board \<Rightarrow> int \<Rightarrow> int list \<Rightarrow> int list" where
  "validColumnsFrom b col valid =
     (if col < COLS
      then validColumnsFrom b (col + 1) (if \<not> isColumnFull b col then valid @ [col] else valid)
      else valid)"
  by pat_completeness auto
termination
  by (relation "measure (\<lambda>(b, col, valid). nat (COLS - col))") auto

declare validColumnsFrom.simps [simp del]

definition getValidColumns :: "GameState \<Rightarrow> int list" where
  "getValidColumns s = validColumnsFrom (board s) 0 []"

text \<open>The object \<open>serialize\<close> returns, with the same seven fields.\<close>

record wireState =
  w_board :: board
  w_currentPlayer :: int
  w_winner :: "int option"
  w_winningCells :: "coord list"
  w_isDraw :: bool
  w_moveHistory :: "move list"
  w_gameOver :: bool

definition serialize :: "GameState \<Rightarrow> wireState" where
  "serialize s = \<lparr>w_board = board s, w_currentPlayer = currentPlayer s, w_winner = winner s,
                  w_winningCells = winningCells s, w_isDraw = isDraw s,
                  w_moveHistory = moveHistory s, w_gameOver = gameOver s\<rparr>"

definition deserialize :: "GameState \<Rightarrow> wireState \<Rightarrow> GameState" where
  "deserialize s data = s\<lparr>board := w_board data, currentPlayer := w_currentPlayer data,
                          winner := w_winner data, winningCells := w_winningCells data,
                          isDraw := w_isDraw data, moveHistory := w_moveHistory data,
                          gameOver := w_gameOver data\<rparr>"

section \<open>Boards as arrays in a store\<close>

text \<open>
  The functions above compute with board values. A JavaScript array is a mutable
  object, and whether \<open>dropPiece\<close> changes the board it is given depends on which
  arrays it writes. Here the arrays live in a store: a reference is a position in the
  store, an array holds numbers (a row) or references to rows (a board), a new array is
  added at the end, and a write replaces the array at a reference.
\<close>

datatype arr = Cells "int list" | Rows "nat list"

type_synonym store = "arr list"

fun cellsOf :: "arr \<Rightarrow> int list" where
  "cellsOf (Cells cs) = cs"
| "cellsOf (Rows rs) = []"

fun rowsOf :: "arr \<Rightarrow> nat list" where
  "rowsOf (Rows rs) = rs"
| "rowsOf (Cells cs) = []"

text \<open>The board value a reference stands for in a store.\<close>

definition boardOf :: "store \<Rightarrow> nat \<Rightarrow> board" where
  "boardOf st ref = map (\<lambda>r. cellsOf (st ! r)) (rowsOf (st ! ref))"

text \<open>
  A reference to a board of the program's shape: the reference and the references to
  its rows are allocated, and the value is a 6 by 7 board.
\<close>

definition wf_store_board :: "store \<Rightarrow> nat \<Rightarrow> bool" where
  "wf_store_board st ref \<longleftrightarrow>
     ref < length st \<and> (\<forall>r \<in> set (rowsOf (st ! ref)). r < length st) \<and>
     wf_board (boardOf st ref)"

text \<open>
  \<open>board.map(row => [...row])\<close>: a new array for each row, in order, then the new outer
  array.
\<close>

fun cloneRows :: "store \<Rightarrow> nat list \<Rightarrow> store \<times> nat list" where
  "cloneRows st [] = (st, [])"
| "cloneRows st (r # rs) =
     (let st1 = st @ [Cells (cellsOf (st ! r))];
          (st2, rs') = cloneRows st1 rs
      in (st2, length st # rs'))"

definition cloneBoard_store :: "store \<Rightarrow> nat \<Rightarrow> store \<times> nat" where
  "cloneBoard_store st ref =
     (let (st1, rs') = cloneRows st (rowsOf (st ! ref)) in (st1 @ [Rows rs'], length st1))"

text \<open>
  \<open>dropPiece\<close> on the store: the reads go through the store, the copy is allocated,
  and \<open>newBoard[row][col] = player\<close> writes the row array the copy refers to. The
  result holds the reference of the board returned.
\<close>

record dropResult_store =
  ds_success :: bool
  ds_row :: int
  ds_board :: nat

definition dropPiece_store :: "store \<Rightarrow> nat \<Rightarrow> int \<Rightarrow> int \<Rightarrow> store \<times> dropResult_store" where
  "dropPiece_store st ref col player =
     (if col < 0 \<or> col \<ge> COLS then (st, \<lparr>ds_success = False, ds_row = - 1, ds_board = ref\<rparr>)
      else let row = getLowestEmptyRow (boardOf st ref) col in
        if row = - 1 then (st, \<lparr>ds_success = False, ds_row = - 1, ds_board = ref\<rparr>)
        else let (st1, newBoard) = cloneBoard_store st ref;
                 rowRef = rowsOf (st1 ! newBoard) ! nat row;
                 st2 = st1[rowRef := Cells ((cellsOf (st1 ! rowRef))[nat col := player])]
             in (st2, \<lparr>ds_success = True, ds_row = row, ds_board = newBoard\<rparr>))"

section \<open>Multiplayer server\<close>

text \<open>
  A room of the server: the object \<open>createGame\<close> builds. \<open>gameState\<close> is the blob a
  client sent with its last move, or \<open>null\<close>; connections are named by their socket
  ids; \<open>rematchRequests\<close> is a JavaScript \<open>Set\<close> of socket ids. The fields carry the
  prefix \<open>g_\<close>.
\<close>

record game =
  g_code :: string
  g_hostId :: string
  g_players :: "string list"
  g_gameState :: "wireState option"
  g_currentPlayer :: int
  g_createdAt :: int
  g_rematchRequests :: "string fset"

text \<open>The registry \<open>games\<close>, a JavaScript \<open>Map\<close> from room codes to rooms.\<close>

type_synonym registry = "string \<rightharpoonup> game"

subsection \<open>Room codes\<close>

definition chars :: string where
  "chars = ''ABCDEFGHJKLMNPQRSTUVWXYZ23456789''"

text \<open>
  \<open>code += chars[i]\<close>: an index outside the string reads \<open>undefined\<close>, which the
  concatenation turns into the text \<open>undefined\<close>.
\<close>

definition charAt :: "string \<Rightarrow> int \<Rightarrow> string" where
  "charAt s i = (if 0 \<le> i \<and> i < int (length s) then [s ! nat i] else ''undefined'')"

text \<open>
  The source of randomness is the sequence \<open>rnd\<close> of the values successive calls of
  \<open>Math.random()\<close> return, each in \<open>[0, 1)\<close>; \<open>k\<close> counts the calls made so far. The
  product with \<open>chars.length = 32\<close> is exact in floating point, so the real product and
  its floor are the values the program computes.

  The inner loop \<open>for (let i = 0; i < 6; i++)\<close> of \<open>generateGameCode\<close>.
\<close>

function drawChars :: "(nat \<Rightarrow> real) \<Rightarrow> nat \<Rightarrow> int \<Rightarrow> string \<Rightarrow> string \<times> nat" where
  "drawChars rnd k i code =
     (if i < 6
      then drawChars rnd (k + 1) (i + 1)
             (code @ charAt chars \<lfloor>rnd k * real (length chars)\<rfloor>)
      else (code, k))"
  by pat_completeness auto
termination
  by (relation "measure (\<lambda>(rnd, k, i, code). nat (6 - i))") auto

declare drawChars.simps [simp del]

text \<open>
  The loop \<open>do { ... } while (games.has(code))\<close>. Nothing bounds the number of its
  rounds, so the function is partial: \<open>None\<close> is the run that never leaves the loop.
\<close>

partial_function (option) generateGameCode ::
  "(nat \<Rightarrow> real) \<Rightarrow> registry \<Rightarrow> nat \<Rightarrow> (string \<times> nat) option" where
  "generateGameCode rnd games k =
     (let (code, k') = drawChars rnd k 0 [] in
      if games code \<noteq> None then generateGameCode rnd games k' else Some (code, k'))"

text \<open>
  \<open>createGame(hostId)\<close>, with the value of \<open>Date.now()\<close> as the argument \<open>now\<close>: the
  new room, the registry with the room stored under its code, and the calls of
  \<open>Math.random()\<close> made.
\<close>

definition createGame ::
  "(nat \<Rightarrow> real) \<Rightarrow> registry \<Rightarrow> nat \<Rightarrow> string \<Rightarrow> int \<Rightarrow> (game \<times> registry \<times> nat) option" where
  "createGame rnd games k hostId now =
     (case generateGameCode rnd games k of
        None \<Rightarrow> None
      | Some (code, k') \<Rightarrow>
          let game = \<lparr>g_code = code, g_hostId = hostId, g_players = [hostId],
                       g_gameState = None, g_currentPlayer = 1, g_createdAt = now,
                       g_rematchRequests = {||}\<rparr>
          in Some (game, games(code \<mapsto> game), k'))"

definition getGame :: "registry \<Rightarrow> string \<Rightarrow> game option" where
  "getGame games code = games code"

subsection \<open>The handlers for joining, leaving, moves and rematch\<close>

text \<open>
  What a handler sends: the event with its payload, and how it is addressed.
  \<open>socket.emit\<close> (\<open>SocketEmit\<close>, with the socket) goes to the socket itself,
  \<open>io.to(room).emit\<close> (\<open>IoTo\<close>, with the room) to every socket in the room, and
  \<open>socket.to(room).emit\<close> (\<open>SocketTo\<close>, with the sender and the room) to every
  socket in the room but the sender. Which sockets are in a room is kept by the
  socket library and is not part of this model.
\<close>

datatype event =
  GameJoined string nat
| GameOpponentJoined string
| GameOpponentLeft string
| GameMove int int "wireState option"
| GameRematch "wireState option"
| GameRematchRequested string

datatype emission =
  SocketEmit string event
| IoTo string event
| SocketTo string string event

text \<open>
  \<open>socket.on('game:join', ...)\<close> for the socket \<open>socketId\<close>: the registry after the
  handler, the reply passed to the callback and the emissions.
\<close>

datatype joinReply = JoinError string | JoinSuccess string nat

definition onJoin :: "registry \<Rightarrow> string \<Rightarrow> string \<Rightarrow> registry \<times> joinReply \<times> emission list" where
  "onJoin games socketId gameCode =
     (case getGame games gameCode of
        None \<Rightarrow> (games, JoinError ''Game not found'', [])
      | Some game \<Rightarrow>
          if length (g_players game) \<ge> 2 then (games, JoinError ''Game is full'', [])
          else
            (games(gameCode \<mapsto> game\<lparr>g_players := g_players game @ [socketId]\<rparr>),
             JoinSuccess gameCode 2,
             [SocketEmit socketId (GameJoined gameCode 2),
              SocketTo socketId gameCode (GameOpponentJoined socketId)]))"

text \<open>
  \<open>leaveGame(socket, gameCode)\<close>, which serves \<open>game:leave\<close> and \<open>disconnect\<close>: the
  socket is removed from \<open>players\<close>, the others are told, and a room left empty is
  deleted. \<open>rematchRequests\<close> is not touched.
\<close>

definition leaveGame :: "registry \<Rightarrow> string \<Rightarrow> string \<Rightarrow> registry \<times> emission list" where
  "leaveGame games socketId gameCode =
     (case getGame games gameCode of
        None \<Rightarrow> (games, [])
      | Some game \<Rightarrow>
          let game1 = game\<lparr>g_players := filter (\<lambda>id. id \<noteq> socketId) (g_players game)\<rparr>;
              sent = [SocketTo socketId gameCode (GameOpponentLeft socketId)]
          in if length (g_players game1) = 0 then (games(gameCode := None), sent)
             else (games(gameCode \<mapsto> game1), sent))"

text \<open>
  \<open>socket.on('game:move', ...)\<close>: the room caches the state the client sent and the
  move goes to the other sockets of the room.
\<close>

definition onMove ::
  "registry \<Rightarrow> string \<Rightarrow> string \<Rightarrow> int \<Rightarrow> int \<Rightarrow> wireState option \<Rightarrow> registry \<times> emission list" where
  "onMove games socketId gameCode column row gameState =
     (case getGame games gameCode of
        None \<Rightarrow> (games, [])
      | Some game \<Rightarrow>
          (games(gameCode \<mapsto> game\<lparr>g_gameState := gameState\<rparr>),
           [SocketTo socketId gameCode (GameMove column row gameState)]))"

text \<open>
  \<open>socket.on('game:rematch', ...)\<close> for the socket \<open>socketId\<close>: the registry after
  the handler and the emissions it made, in order.
\<close>

definition onRematch :: "registry \<Rightarrow> string \<Rightarrow> string \<Rightarrow> registry \<times> emission list" where
  "onRematch games socketId gameCode =
     (case getGame games gameCode of
        None \<Rightarrow> (games, [])
      | Some game \<Rightarrow>
          let game1 = game\<lparr>g_rematchRequests := finsert socketId (g_rematchRequests game)\<rparr> in
          if fcard (g_rematchRequests game1) \<ge> 2 then
            (games(gameCode \<mapsto> game1\<lparr>g_gameState := None, g_currentPlayer := 1,
                                        g_rematchRequests := {||}\<rparr>),
             [IoTo gameCode (GameRematch None)])
          else
            (games(gameCode \<mapsto> game1),
             [SocketTo socketId gameCode (GameRematchRequested socketId)]))"

section \<open>Notions the properties are stated with\<close>

text \<open>The number of pieces in a column: its cells, top to bottom, that are not \<open>EMPTY\<close>.\<close>

definition columnPieces :: "board \<Rightarrow> int \<Rightarrow> int" where
  "columnPieces b col =
     int (length (filter (\<lambda>row. cellAt b row col \<noteq> Some EMPTY) [0..ROWS - 1]))"

text \<open>
  The gravity invariant: in every column, no cell below a cell that is not \<open>EMPTY\<close> is
  \<open>EMPTY\<close> (a larger row index is lower on the board).
\<close>

definition gravity :: "board \<Rightarrow> bool" where
  "gravity b \<longleftrightarrow>
     (\<forall>col \<in> set [0..COLS - 1]. \<forall>row \<in> set [0..ROWS - 1]. \<forall>below \<in> set [row + 1..ROWS - 1].
        cellAt b row col \<noteq> Some EMPTY \<longrightarrow> cellAt b below col \<noteq> Some EMPTY)"

text \<open>The states a game passes through: \<open>reset()\<close> followed by calls of \<open>makeMove\<close>.\<close>

inductive reachable :: "GameState \<Rightarrow> bool" where
  reachable_reset: "reachable reset"
| reachable_move: "reachable s \<Longrightarrow> reachable (snd (makeMove s col))"

text \<open>The contract of \<open>Math.random()\<close>: every value lies in \<open>[0, 1)\<close>.\<close>

definition randomInRange :: "(nat \<Rightarrow> real) \<Rightarrow> bool" where
  "randomInRange rnd \<longleftrightarrow> (\<forall>k. 0 \<le> rnd k \<and> rnd k < 1)"

text \<open>
  The code drawn in round \<open>n\<close> (counting from 0) of the loop of \<open>generateGameCode\<close>
  when it starts after \<open>k\<close> calls of \<open>Math.random()\<close>: each round makes six calls.
\<close>

definition attemptCode :: "(nat \<Rightarrow> real) \<Rightarrow> nat \<Rightarrow> nat \<Rightarrow> string" where
  "attemptCode rnd k n = fst (drawChars rnd (k + 6 * n) 0 [])"

text \<open>Every room is stored under its own code, as \<open>createGame\<close> stores it.\<close>

definition registryKeyed :: "registry \<Rightarrow> bool" where
  "registryKeyed games \<longleftrightarrow> (\<forall>key room. games key = Some room \<longrightarrow> g_code room = key)"

text \<open>A room to try the server on.\<close>

definition exampleRoom :: game where
  "exampleRoom = \<lparr>g_code = ''AAAAAA'', g_hostId = ''host'', g_players = [''host''],
     g_gameState = None, g_currentPlayer = 1, g_createdAt = 0, g_rematchRequests = {||}\<rparr>"

definition twoPlayerRoom :: game where
  "twoPlayerRoom = \<lparr>g_code = ''AAAAAA'', g_hostId = ''alice'', g_players = [''alice'', ''bob''],
     g_gameState = Some (serialize reset), g_currentPlayer = 1, g_createdAt = 0,
     g_rematchRequests = {||}\<rparr>"

text \<open>
  The registry after these events on the room \<open>host\<close> created: \<open>carol\<close> joins,
  \<open>host\<close> plays column 3 and sends the move with its state, \<open>carol\<close> requests a
  rematch, \<open>carol\<close> leaves, \<open>bob\<close> joins.
\<close>

definition rejoinedRegistry :: registry where
  "rejoinedRegistry =
     (let g1 = fst (onJoin [''AAAAAA'' \<mapsto> exampleRoom] ''carol'' ''AAAAAA'');
          g2 = fst (onMove g1 ''host'' ''AAAAAA'' 3 5 (Some (serialize (snd (makeMove reset 3)))));
          g3 = fst (onRematch g2 ''carol'' ''AAAAAA'');
          g4 = fst (leaveGame g3 ''carol'' ''AAAAAA'')
      in fst (onJoin g4 ''bob'' ''AAAAAA''))"

text \<open>A store that holds one board: its rows at \<open>0 ..\<close>, the board after them.\<close>

definition storeOf :: "board \<Rightarrow> store" where
  "storeOf b = map Cells b @ [Rows [0..<length b]]"

text \<open>Playing a list of columns in turn, each with \<open>makeMove\<close>.\<close>

definition playMoves :: "GameState \<Rightarrow> int list \<Rightarrow> GameState" where
  "playMoves s cols = foldl (\<lambda>st col. snd (makeMove st col)) s cols"

text \<open>
  The candidate lines of \<open>checkWin\<close> as the specification lists them: horizontal lines
  with rows top to bottom and columns left to right, then vertical lines, then the
  diagonals from bottom-left to top-right, then the diagonals from top-left to
  bottom-right. Each line lists its four coordinates from its starting cell.
\<close>

definition horizontalLines :: "coord list list" where
  "horizontalLines = concat (map (\<lambda>row. map (\<lambda>col.
     [(row, col), (row, col + 1), (row, col + 2), (row, col + 3)]) [0..COLS - 4]) [0..ROWS - 1])"

definition verticalLines :: "coord list list" where
  "verticalLines = concat (map (\<lambda>row. map (\<lambda>col.
     [(row, col), (row + 1, col), (row + 2, col), (row + 3, col)]) [0..COLS - 1]) [0..ROWS - 4])"

definition diagUpLines :: "coord list list" where
  "diagUpLines = concat (map (\<lambda>row. map (\<lambda>col.
     [(row, col), (row - 1, col + 1), (row - 2, col + 2), (row - 3, col + 3)]) [0..COLS - 4])
     [3..ROWS - 1])"

definition diagDownLines :: "coord list list" where
  "diagDownLines = concat (map (\<lambda>row. map (\<lambda>col.
     [(row, col), (row + 1, col + 1), (row + 2, col + 2), (row + 3, col + 3)]) [0..COLS - 4])
     [0..ROWS - 4])"

definition scanOrder :: "coord list list" where
  "scanOrder = horizontalLines @ verticalLines @ diagUpLines @ diagDownLines"

text \<open>A line belongs to a player when each of its cells holds that player.\<close>

definition ownsLine :: "board \<Rightarrow> int \<Rightarrow> coord list \<Rightarrow> bool" where
  "ownsLine b player line \<longleftrightarrow> list_all (\<lambda>(row, col). cellAt b row col = Some player) line"

text \<open>
  What the specification asks of \<open>checkWin\<close>: the first line of the scan order that
  belongs to the player, or no win and no cells.
\<close>

definition checkWin_spec :: "board \<Rightarrow> int \<Rightarrow> winResult" where
  "checkWin_spec b player =
     (case find (ownsLine b player) scanOrder of
        Some line \<Rightarrow> \<lparr>won = True, cells = line\<rparr>
      | None \<Rightarrow> \<lparr>won = False, cells = []\<rparr>)"

text \<open>
  Four consecutive cells of the player in one of the four orientations: from a cell of
  the board to the right, down, up-right or down-right. A cell outside the board reads
  as \<open>None\<close>, so the four cells lie on the board.
\<close>

definition fourInARow :: "board \<Rightarrow> int \<Rightarrow> bool" where
  "fourInARow b player \<longleftrightarrow>
     (\<exists>row \<in> set [0..ROWS - 1]. \<exists>col \<in> set [0..COLS - 1].
      \<exists>(dr, dc) \<in> set [(0, 1), (1, 0), (- 1, 1), (1, 1)].
        cellAt b row col = Some player \<and>
        cellAt b (row + dr) (col + dc) = Some player \<and>
        cellAt b (row + 2 * dr) (col + 2 * dc) = Some player \<and>
        cellAt b (row + 3 * dr) (col + 3 * dc) = Some player)"

text \<open>
  A board on which red owns a vertical line in column 0 and the horizontal line of the
  bottom row.
\<close>

definition twoLinesBoard :: board where
  "twoLinesBoard =
     [[0, 0, 0, 0, 0, 0, 0],
      [0, 0, 0, 0, 0, 0, 0],
      [1, 0, 0, 0, 0, 0, 0],
      [1, 2, 2, 0, 0, 0, 0],
      [1, 2, 2, 2, 0, 0, 0],
      [1, 1, 1, 1, 0, 0, 0]]"

section \<open>Properties of the board engine\<close>

subsection \<open>Reads, writes and the lowest empty row\<close>

lemma cellAt_wf:
  "wf_board b \<Longrightarrow> 0 \<le> r \<Longrightarrow> r < ROWS \<Longrightarrow> 0 \<le> c \<Longrightarrow> c < COLS \<Longrightarrow>
   cellAt b r c = Some (b ! nat r ! nat c)"
  by (auto simp: wf_board_def cellAt_def)

lemma cellAt_outside_col: "wf_board b \<Longrightarrow> c < 0 \<or> c \<ge> COLS \<Longrightarrow> cellAt b r c = None"
  by (auto simp: wf_board_def cellAt_def)

lemma cellAt_Some_range:
  "wf_board b \<Longrightarrow> cellAt b r c = Some v \<Longrightarrow> 0 \<le> r \<and> r < ROWS \<and> 0 \<le> c \<and> c < COLS"
  by (auto simp: wf_board_def cellAt_def split: if_splits)

lemma lowestEmptyFrom_result:
  "lowestEmptyFrom b col row = k \<Longrightarrow> - 1 \<le> row \<Longrightarrow>
   - 1 \<le> k \<and> k \<le> row \<and> (k \<noteq> - 1 \<longrightarrow> cellAt b k col = Some EMPTY) \<and>
   (\<forall>r. k < r \<and> r \<le> row \<longrightarrow> cellAt b r col \<noteq> Some EMPTY)"
proof (induction b col row arbitrary: k rule: lowestEmptyFrom.induct)
  case (1 b col row)
  show ?case
  proof (cases "row \<ge> 0")
    case False
    with "1.prems" show ?thesis by (auto simp: lowestEmptyFrom.simps)
  next
    case True
    show ?thesis
    proof (cases "cellAt b row col = Some EMPTY")
      case True
      with \<open>row \<ge> 0\<close> "1.prems" show ?thesis by (auto simp: lowestEmptyFrom.simps)
    next
      case False
      with \<open>row \<ge> 0\<close> "1.prems" have "lowestEmptyFrom b col (row - 1) = k"
        by (simp add: lowestEmptyFrom.simps)
      from "1.IH"[OF \<open>row \<ge> 0\<close> False this] \<open>row \<ge> 0\<close>
      have IH: "- 1 \<le> k \<and> k \<le> row - 1 \<and> (k \<noteq> - 1 \<longrightarrow> cellAt b k col = Some EMPTY) \<and>
        (\<forall>r. k < r \<and> r \<le> row - 1 \<longrightarrow> cellAt b r col \<noteq> Some EMPTY)" by simp
      show ?thesis
      proof (intro conjI allI impI)
        fix r assume "k < r \<and> r \<le> row"
        then show "cellAt b r col \<noteq> Some EMPTY"
          using IH False by (cases "r = row") auto
      qed (use IH in auto)
    qed
  qed
qed

lemma gravityD:
  assumes "gravity b" "0 \<le> col" "col < COLS" "0 \<le> r" "r < r'" "r' < ROWS"
    and "cellAt b r col \<noteq> Some EMPTY"
  shows "cellAt b r' col \<noteq> Some EMPTY"
proof -
  have "col \<in> set [0..COLS - 1]" "r \<in> set [0..ROWS - 1]" "r' \<in> set [r + 1..ROWS - 1]"
    using assms by auto
  with assms(1,7) show ?thesis unfolding gravity_def by blast
qed

lemma getLowestEmptyRow_result:
  "getLowestEmptyRow b col = k \<Longrightarrow>
   - 1 \<le> k \<and> k < ROWS \<and> (k \<noteq> - 1 \<longrightarrow> cellAt b k col = Some EMPTY) \<and>
   (\<forall>r. k < r \<and> r < ROWS \<longrightarrow> cellAt b r col \<noteq> Some EMPTY)"
  using lowestEmptyFrom_result[of b col "ROWS - 1" k]
  by (auto simp: getLowestEmptyRow_def ROWS_def)

lemma filter_above_upto:
  "- 1 \<le> k \<Longrightarrow> k \<le> 5 \<Longrightarrow> length (filter (\<lambda>r. k < r) [0..5]) = nat (5 - k)"
proof -
  assume "- 1 \<le> k" "k \<le> 5"
  then consider "k = - 1" | "k = 0" | "k = 1" | "k = 2" | "k = 3" | "k = 4" | "k = 5" by arith
  then show ?thesis by cases (simp_all add: upto_rec1)
qed

lemma gravity_column_pieces:
  assumes g: "gravity b" and c: "0 \<le> col" "col < COLS"
  shows "columnPieces b col = ROWS - 1 - getLowestEmptyRow b col"
proof -
  define k where "k = getLowestEmptyRow b col"
  from getLowestEmptyRow_result[OF k_def[symmetric]]
  have k: "- 1 \<le> k" "k < ROWS" "k \<noteq> - 1 \<longrightarrow> cellAt b k col = Some EMPTY"
    and above: "\<And>r. k < r \<Longrightarrow> r < ROWS \<Longrightarrow> cellAt b r col \<noteq> Some EMPTY" by auto
  have below: "cellAt b r col = Some EMPTY" if "0 \<le> r" "r \<le> k" for r
  proof (cases "r = k")
    case True with that k show ?thesis by auto
  next
    case False
    with that have "r < k" by simp
    have "cellAt b k col = Some EMPTY" using k that by auto
    show ?thesis
    proof (rule ccontr)
      assume "cellAt b r col \<noteq> Some EMPTY"
      from gravityD[OF g c \<open>0 \<le> r\<close> \<open>r < k\<close> k(2) this]
      have "cellAt b k col \<noteq> Some EMPTY" .
      with \<open>cellAt b k col = Some EMPTY\<close> show False by simp
    qed
  qed
  have "filter (\<lambda>row. cellAt b row col \<noteq> Some EMPTY) [0..5] = filter (\<lambda>r. k < r) [0..5]"
  proof (rule filter_cong[OF refl])
    fix r assume "r \<in> set [0..5]"
    then have r: "0 \<le> r" "r < ROWS" by (auto simp: ROWS_def)
    show "(cellAt b r col \<noteq> Some EMPTY) = (k < r)"
      using above[of r] below[of r] r by (cases "k < r") auto
  qed
  then show ?thesis
    using filter_above_upto[of k] k by (simp add: columnPieces_def ROWS_def k_def)
qed

lemma cloneBoard_id: "cloneBoard b = b"
  by (simp add: cloneBoard_def)

lemma wf_board_row_length:
  "wf_board b \<Longrightarrow> 0 \<le> r \<Longrightarrow> r < ROWS \<Longrightarrow> int (length (b ! nat r)) = COLS"
proof -
  assume wf: "wf_board b" and r: "0 \<le> r" "r < ROWS"
  then have "nat r < length b" by (auto simp: wf_board_def)
  then have "b ! nat r \<in> set b" by (rule nth_mem)
  with wf show ?thesis by (simp add: wf_board_def)
qed

lemma wf_board_setCell: "wf_board b \<Longrightarrow> wf_board (setCell b r c v)"
proof -
  assume wf: "wf_board b"
  have "int (length x) = COLS" if "x \<in> set (b[nat r := (b ! nat r)[nat c := v]])" for x
  proof -
    from that set_update_subset_insert[of b "nat r" "(b ! nat r)[nat c := v]"]
    have "x = (b ! nat r)[nat c := v] \<or> x \<in> set b" by auto
    then show ?thesis
    proof
      assume x: "x = (b ! nat r)[nat c := v]"
      show ?thesis
      proof (cases "nat r < length b")
        case True
        then have "b ! nat r \<in> set b" by (rule nth_mem)
        with wf x show ?thesis by (simp add: wf_board_def)
      next
        case False
        then have "b[nat r := (b ! nat r)[nat c := v]] = b" by (simp add: list_update_beyond)
        with that wf show ?thesis by (simp add: wf_board_def)
      qed
    next
      assume "x \<in> set b"
      with wf show ?thesis by (simp add: wf_board_def)
    qed
  qed
  with wf show ?thesis by (simp add: wf_board_def setCell_def)
qed

lemma cellAt_setCell:
  assumes "wf_board b" "0 \<le> r" "r < ROWS" "0 \<le> c" "c < COLS"
  shows "cellAt (setCell b r c v) r' c' = (if r' = r \<and> c' = c then Some v else cellAt b r' c')"
proof -
  from assms have lenr: "nat r < length b" by (auto simp: wf_board_def)
  from wf_board_row_length[OF assms(1,2,3)] assms(4,5)
  have lenc: "nat c < length (b ! nat r)" by simp
  show ?thesis
  proof (cases "0 \<le> r' \<and> r' < int (length b)")
    case False
    then show ?thesis using assms lenr by (auto simp: cellAt_def setCell_def)
  next
    case True
    then show ?thesis
      using lenr lenc assms(2,4)
      by (cases "r' = r"; cases "c' = c")
         (auto simp: cellAt_def setCell_def nth_list_update nat_eq_iff)
  qed
qed

lemma dropPiece_fail:
  "\<not> d_success (dropPiece b col p) \<Longrightarrow>
   dropPiece b col p = \<lparr>d_success = False, d_row = - 1, d_board = b\<rparr>"
  by (auto simp: dropPiece_def Let_def split: if_splits)

lemma dropPiece_success_iff:
  "d_success (dropPiece b col p) \<longleftrightarrow> 0 \<le> col \<and> col < COLS \<and> getLowestEmptyRow b col \<noteq> - 1"
  by (auto simp: dropPiece_def Let_def)

lemma dropPiece_success:
  "d_success (dropPiece b col p) \<Longrightarrow>
   dropPiece b col p = \<lparr>d_success = True, d_row = getLowestEmptyRow b col,
     d_board = setCell b (getLowestEmptyRow b col) col p\<rparr>"
  by (auto simp: dropPiece_def Let_def cloneBoard_id split: if_splits)

lemma getLowestEmptyRow_none_iff:
  "getLowestEmptyRow b col = - 1 \<longleftrightarrow> (\<forall>r. 0 \<le> r \<and> r < ROWS \<longrightarrow> cellAt b r col \<noteq> Some EMPTY)"
proof
  assume "getLowestEmptyRow b col = - 1"
  from getLowestEmptyRow_result[OF this] show "\<forall>r. 0 \<le> r \<and> r < ROWS \<longrightarrow> cellAt b r col \<noteq> Some EMPTY"
    by auto
next
  assume a: "\<forall>r. 0 \<le> r \<and> r < ROWS \<longrightarrow> cellAt b r col \<noteq> Some EMPTY"
  define k where "k = getLowestEmptyRow b col"
  from getLowestEmptyRow_result[OF k_def[symmetric]]
  have k: "- 1 \<le> k" "k < ROWS" "k \<noteq> - 1 \<longrightarrow> cellAt b k col = Some EMPTY" by auto
  show "getLowestEmptyRow b col = - 1"
  proof (rule ccontr)
    assume "getLowestEmptyRow b col \<noteq> - 1"
    then have "k \<noteq> - 1" by (simp add: k_def)
    with k have "0 \<le> k" "cellAt b k col = Some EMPTY" by auto
    with a k(2) show False by auto
  qed
qed

lemma columnPieces_full_iff:
  "columnPieces b col = ROWS \<longleftrightarrow> getLowestEmptyRow b col = - 1"
proof -
  let ?P = "\<lambda>row. cellAt b row col \<noteq> Some EMPTY"
  have len: "length [0..ROWS - 1] = 6" by (simp add: ROWS_def)
  have "columnPieces b col = ROWS \<longleftrightarrow> length (filter ?P [0..ROWS - 1]) = length [0..ROWS - 1]"
    by (simp add: columnPieces_def len) (simp add: ROWS_def)
  also have "\<dots> \<longleftrightarrow> length (filter (\<lambda>x. \<not> ?P x) [0..ROWS - 1]) = 0"
    using sum_length_filter_compl[of ?P "[0..ROWS - 1]"] by arith
  also have "\<dots> \<longleftrightarrow> (\<forall>r \<in> set [0..ROWS - 1]. ?P r)"
    by (simp add: filter_empty_conv)
  also have "\<dots> \<longleftrightarrow> (\<forall>r. 0 \<le> r \<and> r < ROWS \<longrightarrow> ?P r)"
    by auto
  finally show ?thesis by (simp add: getLowestEmptyRow_none_iff)
qed

lemma columnPieces_le: "columnPieces b col \<le> ROWS"
proof -
  have "length (filter (\<lambda>row. cellAt b row col \<noteq> Some EMPTY) [0..ROWS - 1]) \<le> length [0..ROWS - 1]"
    by (rule length_filter_le)
  then show ?thesis by (simp add: columnPieces_def ROWS_def)
qed

lemma getOtherPlayer_neq: "getOtherPlayer p \<noteq> p"
  by (simp add: getOtherPlayer_def consts_defs)


subsection \<open>Gravity and the reachable states\<close>

lemma gravityI:
  assumes "\<And>col r r'. 0 \<le> col \<Longrightarrow> col < COLS \<Longrightarrow> 0 \<le> r \<Longrightarrow> r < r' \<Longrightarrow> r' < ROWS \<Longrightarrow>
             cellAt b r col \<noteq> Some EMPTY \<Longrightarrow> cellAt b r' col \<noteq> Some EMPTY"
  shows "gravity b"
  unfolding gravity_def using assms by auto

lemma rows_above_lowest_empty:
  assumes g: "gravity b" and c: "0 \<le> col" "col < COLS"
    and k: "getLowestEmptyRow b col = k" "k \<noteq> - 1" and r: "0 \<le> r" "r \<le> k"
  shows "cellAt b r col = Some EMPTY"
proof -
  from getLowestEmptyRow_result[OF k(1)] k(2)
  have kk: "k < ROWS" "cellAt b k col = Some EMPTY" by auto
  show ?thesis
  proof (cases "r = k")
    case True with kk show ?thesis by simp
  next
    case False
    with r have "r < k" by simp
    show ?thesis
    proof (rule ccontr)
      assume "cellAt b r col \<noteq> Some EMPTY"
      from gravityD[OF g c r(1) \<open>r < k\<close> kk(1) this] kk(2) show False by simp
    qed
  qed
qed

lemma gravity_dropPiece:
  assumes wf: "wf_board b" and g: "gravity b" and ok: "d_success (dropPiece b col p)"
  shows "gravity (d_board (dropPiece b col p))"
proof -
  define k where "k = getLowestEmptyRow b col"
  from ok have c: "0 \<le> col" "col < COLS" and kne: "k \<noteq> - 1"
    by (auto simp: dropPiece_success_iff k_def)
  from getLowestEmptyRow_result[OF k_def[symmetric]] kne
  have k: "0 \<le> k" "k < ROWS" "cellAt b k col = Some EMPTY"
    and above: "\<And>r. k < r \<Longrightarrow> r < ROWS \<Longrightarrow> cellAt b r col \<noteq> Some EMPTY" by auto
  have nb: "d_board (dropPiece b col p) = setCell b k col p"
    using dropPiece_success[OF ok] by (simp add: k_def)
  note upd = cellAt_setCell[OF wf k(1,2) c]
  show ?thesis unfolding nb
  proof (rule gravityI)
    fix c' r r'
    assume c': "0 \<le> c'" "c' < COLS" and r: "0 \<le> r" "r < r'" "r' < ROWS"
      and occ: "cellAt (setCell b k col p) r c' \<noteq> Some EMPTY"
    show "cellAt (setCell b k col p) r' c' \<noteq> Some EMPTY"
    proof (cases "c' = col")
      case False
      with occ have "cellAt b r c' \<noteq> Some EMPTY" by (simp add: upd)
      from gravityD[OF g c' r this] False show ?thesis by (simp add: upd)
    next
      case True
      show ?thesis
      proof (cases "r \<le> k")
        case False
        then have "k < r'" using r by simp
        from above[OF this r(3)] True \<open>k < r'\<close> show ?thesis by (simp add: upd)
      next
        case rk: True
        have old: "cellAt b r col = Some EMPTY"
          by (rule rows_above_lowest_empty[OF g c k_def[symmetric] kne r(1) rk])
        show ?thesis
        proof (cases "r = k")
          case False
          with occ old True show ?thesis by (simp add: upd)
        next
          case rk2: True
          then have "k < r'" using r by simp
          from above[OF this r(3)] True \<open>k < r'\<close> show ?thesis by (simp add: upd)
        qed
      qed
    qed
  qed
qed

lemma wf_board_dropPiece:
  "wf_board b \<Longrightarrow> wf_board (d_board (dropPiece b col p))"
proof (cases "d_success (dropPiece b col p)")
  case True
  assume "wf_board b"
  then show ?thesis unfolding dropPiece_success[OF True] by (simp add: wf_board_setCell)
next
  case False
  assume "wf_board b"
  then show ?thesis unfolding dropPiece_fail[OF False] by simp
qed

lemma dropPiece_keeps_occupied:
  assumes wf: "wf_board b" and ok: "d_success (dropPiece b col p)"
    and occ: "cellAt b r c \<noteq> Some EMPTY"
  shows "cellAt (d_board (dropPiece b col p)) r c = cellAt b r c"
proof -
  define k where "k = getLowestEmptyRow b col"
  from ok have c: "0 \<le> col" "col < COLS" and kne: "k \<noteq> - 1"
    by (auto simp: dropPiece_success_iff k_def)
  from getLowestEmptyRow_result[OF k_def[symmetric]] kne
  have k: "0 \<le> k" "k < ROWS" "cellAt b k col = Some EMPTY" by auto
  have nb: "d_board (dropPiece b col p) = setCell b k col p"
    using dropPiece_success[OF ok] by (simp add: k_def)
  from occ k(3) have "\<not> (r = k \<and> c = col)" by auto
  then show ?thesis unfolding nb by (auto simp: cellAt_setCell[OF wf k(1,2) c])
qed

lemma makeMove_board:
  "board (snd (makeMove s col)) =
     (if m_success (fst (makeMove s col))
      then d_board (dropPiece (board s) col (currentPlayer s)) else board s)"
  by (simp add: makeMove_def Let_def)

lemma makeMove_success_drop:
  "m_success (fst (makeMove s col)) \<Longrightarrow> d_success (dropPiece (board s) col (currentPlayer s))"
  by (auto simp: makeMove_def Let_def split: if_splits)

lemma wf_board_createBoard: "wf_board createBoard"
  by (simp add: wf_board_def createBoard_def consts_defs)

lemma cellAt_createBoard:
  "cellAt createBoard r c = (if 0 \<le> r \<and> r < ROWS \<and> 0 \<le> c \<and> c < COLS then Some EMPTY else None)"
  by (auto simp: cellAt_def createBoard_def consts_defs)

lemma gravity_createBoard: "gravity createBoard"
  by (rule gravityI) (simp add: cellAt_createBoard)

lemma reachable_invariant:
  "reachable s \<Longrightarrow> wf_board (board s) \<and> gravity (board s)"
proof (induction rule: reachable.induct)
  case reachable_reset
  show ?case by (simp add: reset_def wf_board_createBoard gravity_createBoard)
next
  case (reachable_move s col)
  then have wf: "wf_board (board s)" and g: "gravity (board s)" by auto
  show ?case
  proof (cases "m_success (fst (makeMove s col))")
    case False
    with wf g show ?thesis by (simp add: makeMove_board)
  next
    case True
    from makeMove_success_drop[OF True] wf g True show ?thesis
      by (simp add: makeMove_board wf_board_dropPiece gravity_dropPiece)
  qed
qed


lemma reachable_playMoves: "reachable s \<Longrightarrow> reachable (playMoves s cols)"
proof (induction cols arbitrary: s)
  case Nil
  then show ?case by (simp add: playMoves_def)
next
  case (Cons col cols)
  from Cons.IH[OF reachable_move[OF Cons.prems, of col]] show ?case
    by (simp add: playMoves_def)
qed

subsection \<open>Dropping a piece\<close>

lemma set_validColumnsFrom:
  "set (validColumnsFrom b col valid) =
     set valid \<union> {c. col \<le> c \<and> c < COLS \<and> \<not> isColumnFull b c}"
proof (induction b col valid rule: validColumnsFrom.induct)
  case (1 b col valid)
  show ?case
  proof (cases "col < COLS")
    case False
    then show ?thesis by (auto simp: validColumnsFrom.simps[of b col valid])
  next
    case True
    have split: "{c. col \<le> c \<and> c < COLS \<and> \<not> isColumnFull b c} =
                 (if \<not> isColumnFull b col then {col} else {}) \<union>
                 {c. col + 1 \<le> c \<and> c < COLS \<and> \<not> isColumnFull b c}"
      using True by (auto simp: order_le_less)
    show ?thesis
      using True "1.IH"[OF True]
      by (subst validColumnsFrom.simps) (auto simp: split)
  qed
qed

lemma isColumnFull_iff_drop_fails:
  assumes wf: "wf_board b" and g: "gravity b"
  shows "isColumnFull b col \<longleftrightarrow> \<not> d_success (dropPiece b col player)"
proof (cases "0 \<le> col \<and> col < COLS")
  case False
  then have "cellAt b 0 col = None" using cellAt_outside_col[OF wf, of col 0] by auto
  with False show ?thesis by (auto simp: isColumnFull_def dropPiece_success_iff)
next
  case True
  then have c: "0 \<le> col" "col < COLS" by auto
  show ?thesis
  proof
    assume full: "isColumnFull b col"
    have "cellAt b r col \<noteq> Some EMPTY" if r: "0 \<le> r" "r < ROWS" for r
    proof (cases "r = 0")
      case True with full show ?thesis by (simp add: isColumnFull_def)
    next
      case False
      with r have "0 < r" by simp
      from gravityD[OF g c _ this r(2)] full show ?thesis by (simp add: isColumnFull_def)
    qed
    then have "getLowestEmptyRow b col = - 1" by (simp add: getLowestEmptyRow_none_iff)
    then show "\<not> d_success (dropPiece b col player)" by (simp add: dropPiece_success_iff)
  next
    assume "\<not> d_success (dropPiece b col player)"
    with c have "getLowestEmptyRow b col = - 1" by (simp add: dropPiece_success_iff)
    then have "cellAt b 0 col \<noteq> Some EMPTY"
      by (simp add: getLowestEmptyRow_none_iff ROWS_def)
    then show "isColumnFull b col" by (simp add: isColumnFull_def)
  qed
qed

lemma dropPiece_lands:
  assumes wf: "wf_board b" and g: "gravity b" and c: "0 \<le> col" "col < COLS"
    and n: "columnPieces b col < ROWS"
  shows "dropPiece b col player =
           \<lparr>d_success = True, d_row = ROWS - 1 - columnPieces b col,
             d_board = setCell b (ROWS - 1 - columnPieces b col) col player\<rparr>"
proof -
  from n have "getLowestEmptyRow b col \<noteq> - 1" using columnPieces_full_iff[of b col] by auto
  with c have ok: "d_success (dropPiece b col player)" by (simp add: dropPiece_success_iff)
  from gravity_column_pieces[OF g c]
  have "getLowestEmptyRow b col = ROWS - 1 - columnPieces b col" by simp
  with dropPiece_success[OF ok] show ?thesis by simp
qed

lemma dropPiece_rejects:
  assumes "col < 0 \<or> col \<ge> COLS \<or> columnPieces b col = ROWS"
  shows "dropPiece b col player = \<lparr>d_success = False, d_row = - 1, d_board = b\<rparr>"
proof -
  from assms have "\<not> d_success (dropPiece b col player)"
    by (auto simp: dropPiece_success_iff columnPieces_full_iff)
  then show ?thesis by (rule dropPiece_fail)
qed

subsection \<open>Dropping a piece in the store\<close>

lemma cloneRows_eq:
  "\<forall>r \<in> set rs. r < length st \<Longrightarrow>
   cloneRows st rs =
     (st @ map (\<lambda>r. Cells (cellsOf (st ! r))) rs, [length st..<length st + length rs])"
proof (induction rs arbitrary: st)
  case Nil
  then show ?case by simp
next
  case (Cons r rs)
  let ?st1 = "st @ [Cells (cellsOf (st ! r))]"
  have inb: "\<forall>r' \<in> set rs. r' < length ?st1" using Cons.prems by auto
  have same: "map (\<lambda>r'. Cells (cellsOf (?st1 ! r'))) rs = map (\<lambda>r'. Cells (cellsOf (st ! r'))) rs"
    using Cons.prems by (auto simp: nth_append)
  have upt: "length st # [length ?st1..<length ?st1 + length rs] =
             [length st..<length st + length (r # rs)]"
  proof -
    have "[length st..<length st + length (r # rs)] =
          length st # [Suc (length st)..<length st + length (r # rs)]"
      by (rule upt_conv_Cons) simp
    then show ?thesis by simp
  qed
  from Cons.IH[OF inb] show ?case
    unfolding cloneRows.simps Let_def by (simp only: same upt prod.case) simp
qed

lemma dropPiece_store_fail:
  "\<not> d_success (dropPiece (boardOf st ref) col p) \<Longrightarrow>
   dropPiece_store st ref col p = (st, \<lparr>ds_success = False, ds_row = - 1, ds_board = ref\<rparr>)"
  by (auto simp: dropPiece_success_iff dropPiece_store_def)

lemma length_boardOf: "length (boardOf st ref) = length (rowsOf (st ! ref))"
  by (simp add: boardOf_def)

lemma boardOf_prefix:
  assumes "ref < length st" and "\<forall>r \<in> set (rowsOf (st ! ref)). r < length st"
    and "\<forall>a < length st. st' ! a = st ! a"
  shows "boardOf st' ref = boardOf st ref"
  using assms by (simp add: boardOf_def)

lemma dropPiece_store_success:
  assumes wf: "wf_store_board st ref" and ok: "d_success (dropPiece (boardOf st ref) col p)"
  shows "\<exists>st'. dropPiece_store st ref col p =
           (st', \<lparr>ds_success = True, ds_row = getLowestEmptyRow (boardOf st ref) col,
                  ds_board = length st + length (rowsOf (st ! ref))\<rparr>) \<and>
         (\<forall>a < length st. st' ! a = st ! a) \<and>
         wf_store_board st' (length st + length (rowsOf (st ! ref))) \<and>
         boardOf st' (length st + length (rowsOf (st ! ref))) =
           setCell (boardOf st ref) (getLowestEmptyRow (boardOf st ref) col) col p"
proof -
  define rs where "rs = rowsOf (st ! ref)"
  define n where "n = length rs"
  define b where "b = boardOf st ref"
  define row where "row = getLowestEmptyRow b col"
  define base where "base = st @ map (\<lambda>r. Cells (cellsOf (st ! r))) rs"
  define st1 where "st1 = base @ [Rows [length st..<length st + n]]"
  define st2 where
    "st2 = st1[length st + nat row := Cells ((cellsOf (st1 ! (length st + nat row)))[nat col := p])]"
  from wf have refs: "\<forall>r \<in> set rs. r < length st" and wfb: "wf_board b"
    by (auto simp: wf_store_board_def rs_def b_def)
  from ok have c: "0 \<le> col" "col < COLS" and rne: "row \<noteq> - 1"
    by (auto simp: dropPiece_success_iff row_def b_def)
  from getLowestEmptyRow_result[OF row_def[symmetric]] rne
  have row: "0 \<le> row" "row < ROWS" by auto
  have nb: "length b = n" by (simp add: b_def n_def rs_def length_boardOf)
  with wfb have n6: "int n = ROWS" by (simp add: wf_board_def)
  with row have rown: "nat row < n" by simp
  have lbase: "length base = length st + n" by (simp add: base_def n_def)
  have clone: "cloneBoard_store st ref = (st1, length st + n)"
    using cloneRows_eq[OF refs]
    by (simp add: cloneBoard_store_def rs_def[symmetric] st1_def base_def n_def)
  have st1_board: "st1 ! (length st + n) = Rows [length st..<length st + n]"
    using lbase by (simp add: st1_def nth_append)
  have rowRef: "rowsOf (st1 ! (length st + n)) ! nat row = length st + nat row"
    using rown by (simp add: st1_board)
  have run: "dropPiece_store st ref col p =
      (st2, \<lparr>ds_success = True, ds_row = row, ds_board = length st + n\<rparr>)"
    using c rne
    by (simp add: dropPiece_store_def Let_def b_def[symmetric] row_def[symmetric] clone rowRef
        st2_def)
  have len1: "length st1 = length st + n + 1" by (simp add: st1_def lbase)
  have old: "st2 ! a = st ! a" if "a < length st" for a
    using that by (simp add: st2_def st1_def base_def nth_append)
  have st2_board: "st2 ! (length st + n) = Rows [length st..<length st + n]"
    using rown st1_board by (simp add: st2_def)
  have st1_row: "st1 ! (length st + i) = Cells (cellsOf (st ! (rs ! i)))" if "i < n" for i
    using that by (simp add: st1_def base_def nth_append n_def)
  have st2_row: "cellsOf (st2 ! (length st + i)) =
      (if i = nat row then (b ! i)[nat col := p] else b ! i)" if "i < n" for i
  proof -
    have bi: "b ! i = cellsOf (st ! (rs ! i))"
      using that by (simp add: b_def boardOf_def rs_def[symmetric] n_def)
    show ?thesis
      using that rown len1 bi by (auto simp: st2_def st1_row nth_list_update)
  qed
  have newb: "boardOf st2 (length st + n) = setCell b row col p"
  proof (rule nth_equalityI)
    show "length (boardOf st2 (length st + n)) = length (setCell b row col p)"
      by (simp add: length_boardOf st2_board setCell_def nb)
  next
    fix i assume "i < length (boardOf st2 (length st + n))"
    then have i: "i < n" by (simp add: length_boardOf st2_board)
    then show "boardOf st2 (length st + n) ! i = setCell b row col p ! i"
      using st2_row[OF i] nb
      by (simp add: boardOf_def st2_board setCell_def nth_list_update)
  qed
  have wf2: "wf_store_board st2 (length st + n)"
    unfolding wf_store_board_def
    using len1 wfb by (simp add: st2_def[symmetric] st2_board newb wf_board_setCell)
      (simp add: st2_def len1)
  from run old wf2 newb show ?thesis
    unfolding row_def b_def n_def rs_def by blast
qed

subsection \<open>The scans of checkWin\<close>

lemma find_append_option:
  "find P (xs @ ys) = (case find P xs of Some x \<Rightarrow> Some x | None \<Rightarrow> find P ys)"
  by (induction xs) auto

lemma forLt_inner:
  "forLt lo hi (\<lambda>j. if Q (L j) then Some (L j) else None) = find Q (map L [lo..hi - 1])"
proof (induction lo hi "\<lambda>j. if Q (L j) then Some (L j) else None" rule: forLt.induct)
  case (1 i hi)
  show ?case
  proof (cases "i < hi")
    case False
    then show ?thesis by (subst forLt.simps) simp
  next
    case True
    then have up: "[i..hi - 1] = i # [i + 1..hi - 1]" by (simp add: upto_rec1)
    show ?thesis
    proof (cases "Q (L i)")
      case q: True
      with True show ?thesis by (subst forLt.simps) (simp add: up)
    next
      case q: False
      with True "1.hyps"[OF True] show ?thesis by (subst forLt.simps) (simp add: up)
    qed
  qed
qed

lemma forLt_outer:
  "(\<And>i. body i = find Q (F i)) \<Longrightarrow> forLt lo hi body = find Q (concat (map F [lo..hi - 1]))"
proof (induction lo hi body rule: forLt.induct)
  case (1 i hi body)
  show ?case
  proof (cases "i < hi")
    case False
    then show ?thesis by (subst forLt.simps) simp
  next
    case True
    then have up: "[i..hi - 1] = i # [i + 1..hi - 1]" by (simp add: upto_rec1)
    show ?thesis
    proof (cases "body i")
      case None
      from "1.IH"[OF True None "1.prems"] None True "1.prems"[of i] show ?thesis
        by (subst forLt.simps) (simp add: up find_append_option)
    next
      case (Some r)
      with True "1.prems"[of i] show ?thesis
        by (subst forLt.simps) (auto simp: up find_append_option split: option.splits)
    qed
  qed
qed

lemma forLe_forLt: "forLe lo hi body = forLt lo (hi + 1) body"
proof (induction lo hi body rule: forLe.induct)
  case (1 i hi body)
  show ?case
  proof (cases "i \<le> hi")
    case False
    then show ?thesis by (subst forLe.simps, subst forLt.simps) simp
  next
    case True
    show ?thesis
    proof (cases "body i")
      case None
      with True "1.IH"[OF True None] show ?thesis
        by (subst forLe.simps, subst forLt.simps) simp
    next
      case (Some r)
      with True show ?thesis by (subst forLe.simps, subst forLt.simps) simp
    qed
  qed
qed

lemma forLe_inner:
  "forLe lo hi (\<lambda>j. if Q (L j) then Some (L j) else None) = find Q (map L [lo..hi])"
  using forLt_inner[of lo "hi + 1" Q L] by (simp add: forLe_forLt)

lemma forLe_outer:
  "(\<And>i. body i = find Q (F i)) \<Longrightarrow> forLe lo hi body = find Q (concat (map F [lo..hi]))"
  using forLt_outer[of body Q F lo "hi + 1"] by (simp add: forLe_forLt)

lemma checkHorizontal_find:
  "checkHorizontal b player = find (ownsLine b player) horizontalLines"
proof -
  have inner: "forLe 0 (COLS - 4) (\<lambda>col.
       if cellAt b row col = Some player \<and> cellAt b row (col + 1) = Some player \<and>
          cellAt b row (col + 2) = Some player \<and> cellAt b row (col + 3) = Some player
       then Some [(row, col), (row, col + 1), (row, col + 2), (row, col + 3)] else None) =
     find (ownsLine b player)
       (map (\<lambda>col. [(row, col), (row, col + 1), (row, col + 2), (row, col + 3)]) [0..COLS - 4])"
    for row
    using forLe_inner[of 0 "COLS - 4" "ownsLine b player"
        "\<lambda>col. [(row, col), (row, col + 1), (row, col + 2), (row, col + 3)]"]
    by (simp add: ownsLine_def)
  show ?thesis
    unfolding checkHorizontal_def horizontalLines_def by (rule forLt_outer[OF inner])
qed

lemma checkVertical_find:
  "checkVertical b player = find (ownsLine b player) verticalLines"
proof -
  have inner: "forLt 0 COLS (\<lambda>col.
       if cellAt b row col = Some player \<and> cellAt b (row + 1) col = Some player \<and>
          cellAt b (row + 2) col = Some player \<and> cellAt b (row + 3) col = Some player
       then Some [(row, col), (row + 1, col), (row + 2, col), (row + 3, col)] else None) =
     find (ownsLine b player)
       (map (\<lambda>col. [(row, col), (row + 1, col), (row + 2, col), (row + 3, col)]) [0..COLS - 1])"
    for row
    using forLt_inner[of 0 COLS "ownsLine b player"
        "\<lambda>col. [(row, col), (row + 1, col), (row + 2, col), (row + 3, col)]"]
    by (simp add: ownsLine_def)
  show ?thesis
    unfolding checkVertical_def verticalLines_def by (rule forLe_outer[OF inner])
qed

lemma checkDiagUp_find:
  "checkDiagUp b player = find (ownsLine b player) diagUpLines"
proof -
  have inner: "forLe 0 (COLS - 4) (\<lambda>col.
       if cellAt b row col = Some player \<and> cellAt b (row - 1) (col + 1) = Some player \<and>
          cellAt b (row - 2) (col + 2) = Some player \<and> cellAt b (row - 3) (col + 3) = Some player
       then Some [(row, col), (row - 1, col + 1), (row - 2, col + 2), (row - 3, col + 3)]
       else None) =
     find (ownsLine b player)
       (map (\<lambda>col. [(row, col), (row - 1, col + 1), (row - 2, col + 2), (row - 3, col + 3)])
          [0..COLS - 4])"
    for row
    using forLe_inner[of 0 "COLS - 4" "ownsLine b player"
        "\<lambda>col. [(row, col), (row - 1, col + 1), (row - 2, col + 2), (row - 3, col + 3)]"]
    by (simp add: ownsLine_def)
  show ?thesis
    unfolding checkDiagUp_def diagUpLines_def by (rule forLt_outer[OF inner])
qed

lemma checkDiagDown_find:
  "checkDiagDown b player = find (ownsLine b player) diagDownLines"
proof -
  have inner: "forLe 0 (COLS - 4) (\<lambda>col.
       if cellAt b row col = Some player \<and> cellAt b (row + 1) (col + 1) = Some player \<and>
          cellAt b (row + 2) (col + 2) = Some player \<and> cellAt b (row + 3) (col + 3) = Some player
       then Some [(row, col), (row + 1, col + 1), (row + 2, col + 2), (row + 3, col + 3)]
       else None) =
     find (ownsLine b player)
       (map (\<lambda>col. [(row, col), (row + 1, col + 1), (row + 2, col + 2), (row + 3, col + 3)])
          [0..COLS - 4])"
    for row
    using forLe_inner[of 0 "COLS - 4" "ownsLine b player"
        "\<lambda>col. [(row, col), (row + 1, col + 1), (row + 2, col + 2), (row + 3, col + 3)]"]
    by (simp add: ownsLine_def)
  show ?thesis
    unfolding checkDiagDown_def diagDownLines_def by (rule forLe_outer[OF inner])
qed

lemma checkWin_eq_spec: "checkWin b player = checkWin_spec b player"
  by (simp add: checkWin_def checkWin_spec_def scanOrder_def find_append_option
      checkHorizontal_find checkVertical_find checkDiagUp_find checkDiagDown_find
      split: option.splits)

lemma set_concat_map_map:
  "l \<in> set (concat (map (\<lambda>r. map (f r) cs) rs)) \<longleftrightarrow> (\<exists>r \<in> set rs. \<exists>c \<in> set cs. l = f r c)"
  by auto

lemma set_horizontalLines:
  "l \<in> set horizontalLines \<longleftrightarrow> (\<exists>row \<in> {0..ROWS - 1}. \<exists>col \<in> {0..COLS - 4}.
     l = [(row, col), (row, col + 1), (row, col + 2), (row, col + 3)])"
  unfolding horizontalLines_def set_concat_map_map by simp

lemma set_verticalLines:
  "l \<in> set verticalLines \<longleftrightarrow> (\<exists>row \<in> {0..ROWS - 4}. \<exists>col \<in> {0..COLS - 1}.
     l = [(row, col), (row + 1, col), (row + 2, col), (row + 3, col)])"
  unfolding verticalLines_def set_concat_map_map by simp

lemma set_diagUpLines:
  "l \<in> set diagUpLines \<longleftrightarrow> (\<exists>row \<in> {3..ROWS - 1}. \<exists>col \<in> {0..COLS - 4}.
     l = [(row, col), (row - 1, col + 1), (row - 2, col + 2), (row - 3, col + 3)])"
  unfolding diagUpLines_def set_concat_map_map by simp

lemma set_diagDownLines:
  "l \<in> set diagDownLines \<longleftrightarrow> (\<exists>row \<in> {0..ROWS - 4}. \<exists>col \<in> {0..COLS - 4}.
     l = [(row, col), (row + 1, col + 1), (row + 2, col + 2), (row + 3, col + 3)])"
  unfolding diagDownLines_def set_concat_map_map by simp

lemma fourInARow_iff:
  "fourInARow b player \<longleftrightarrow>
     (\<exists>row col dr dc. 0 \<le> row \<and> row < ROWS \<and> 0 \<le> col \<and> col < COLS \<and>
        (dr, dc) \<in> {(0, 1), (1, 0), (- 1, 1), (1, 1)} \<and>
        cellAt b row col = Some player \<and>
        cellAt b (row + dr) (col + dc) = Some player \<and>
        cellAt b (row + 2 * dr) (col + 2 * dc) = Some player \<and>
        cellAt b (row + 3 * dr) (col + 3 * dc) = Some player)"
  unfolding fourInARow_def Bex_def by (simp add: split_paired_Ex)

lemma fourInARowI:
  assumes "0 \<le> row" "row < ROWS" "0 \<le> col" "col < COLS"
    and "(dr, dc) \<in> {(0, 1), (1, 0), (- 1, 1), (1, 1)}"
    and "cellAt b row col = Some player"
    and "cellAt b (row + dr) (col + dc) = Some player"
    and "cellAt b (row + 2 * dr) (col + 2 * dc) = Some player"
    and "cellAt b (row + 3 * dr) (col + 3 * dc) = Some player"
  shows "fourInARow b player"
  unfolding fourInARow_iff using assms by blast

lemma owned_line_fourInARow:
  assumes "l \<in> set scanOrder" and "ownsLine b player l"
  shows "fourInARow b player"
proof -
  from assms(1) consider "l \<in> set horizontalLines" | "l \<in> set verticalLines"
    | "l \<in> set diagUpLines" | "l \<in> set diagDownLines"
    by (auto simp: scanOrder_def)
  then show ?thesis
  proof cases
    case 1
    then obtain row col where rc: "0 \<le> row" "row < ROWS" "0 \<le> col" "col < COLS"
      and l: "l = [(row, col), (row, col + 1), (row, col + 2), (row, col + 3)]"
      by (auto simp: set_horizontalLines)
    from assms(2) show ?thesis
      by (intro fourInARowI[OF rc, of 0 1]) (simp_all add: l ownsLine_def)
  next
    case 2
    then obtain row col where rc: "0 \<le> row" "row < ROWS" "0 \<le> col" "col < COLS"
      and l: "l = [(row, col), (row + 1, col), (row + 2, col), (row + 3, col)]"
      by (auto simp: set_verticalLines)
    from assms(2) show ?thesis
      by (intro fourInARowI[OF rc, of 1 0]) (simp_all add: l ownsLine_def)
  next
    case 3
    then obtain row col where rc: "0 \<le> row" "row < ROWS" "0 \<le> col" "col < COLS"
      and l: "l = [(row, col), (row - 1, col + 1), (row - 2, col + 2), (row - 3, col + 3)]"
      by (auto simp: set_diagUpLines)
    from assms(2) show ?thesis
      by (intro fourInARowI[OF rc, of "- 1" 1]) (simp_all add: l ownsLine_def)
  next
    case 4
    then obtain row col where rc: "0 \<le> row" "row < ROWS" "0 \<le> col" "col < COLS"
      and l: "l = [(row, col), (row + 1, col + 1), (row + 2, col + 2), (row + 3, col + 3)]"
      by (auto simp: set_diagDownLines)
    from assms(2) show ?thesis
      by (intro fourInARowI[OF rc, of 1 1]) (simp_all add: l ownsLine_def)
  qed
qed

lemma fourInARow_owned_line:
  assumes wf: "wf_board b" and four: "fourInARow b player"
  shows "\<exists>l \<in> set scanOrder. ownsLine b player l"
proof -
  from four obtain row col dr dc where
    d: "(dr, dc) \<in> {(0, 1), (1, 0), (- 1, 1), (1, 1)}" and
    c0: "cellAt b row col = Some player" and
    c1: "cellAt b (row + dr) (col + dc) = Some player" and
    c2: "cellAt b (row + 2 * dr) (col + 2 * dc) = Some player" and
    c3: "cellAt b (row + 3 * dr) (col + 3 * dc) = Some player"
    unfolding fourInARow_iff by blast
  note r0 = cellAt_Some_range[OF wf c0] and r3 = cellAt_Some_range[OF wf c3]
  from d consider "dr = 0 \<and> dc = 1" | "dr = 1 \<and> dc = 0" | "dr = - 1 \<and> dc = 1" | "dr = 1 \<and> dc = 1"
    by auto
  then show ?thesis
  proof cases
    case 1
    let ?l = "[(row, col), (row, col + 1), (row, col + 2), (row, col + 3)]"
    have "?l \<in> set horizontalLines"
      unfolding set_horizontalLines using r0 r3 1
      by (intro bexI[of _ row] bexI[of _ col]) (auto simp: consts_defs)
    moreover have "ownsLine b player ?l" using c0 c1 c2 c3 1 by (simp add: ownsLine_def)
    ultimately show ?thesis unfolding scanOrder_def by auto
  next
    case 2
    let ?l = "[(row, col), (row + 1, col), (row + 2, col), (row + 3, col)]"
    have "?l \<in> set verticalLines"
      unfolding set_verticalLines using r0 r3 2
      by (intro bexI[of _ row] bexI[of _ col]) (auto simp: consts_defs)
    moreover have "ownsLine b player ?l" using c0 c1 c2 c3 2 by (simp add: ownsLine_def)
    ultimately show ?thesis unfolding scanOrder_def by auto
  next
    case 3
    let ?l = "[(row, col), (row - 1, col + 1), (row - 2, col + 2), (row - 3, col + 3)]"
    have "?l \<in> set diagUpLines"
      unfolding set_diagUpLines using r0 r3 3
      by (intro bexI[of _ row] bexI[of _ col]) (auto simp: consts_defs)
    moreover have "ownsLine b player ?l" using c0 c1 c2 c3 3 by (simp add: ownsLine_def)
    ultimately show ?thesis unfolding scanOrder_def by auto
  next
    case 4
    let ?l = "[(row, col), (row + 1, col + 1), (row + 2, col + 2), (row + 3, col + 3)]"
    have "?l \<in> set diagDownLines"
      unfolding set_diagDownLines using r0 r3 4
      by (intro bexI[of _ row] bexI[of _ col]) (auto simp: consts_defs)
    moreover have "ownsLine b player ?l" using c0 c1 c2 c3 4 by (simp add: ownsLine_def)
    ultimately show ?thesis unfolding scanOrder_def by auto
  qed
qed

lemma find_Some_first:
  "find P xs = Some x \<Longrightarrow> \<exists>pre post. xs = pre @ x # post \<and> P x \<and> (\<forall>y \<in> set pre. \<not> P y)"
proof (induction xs)
  case Nil
  then show ?case by simp
next
  case (Cons a xs)
  show ?case
  proof (cases "P a")
    case True
    with Cons.prems have "a = x" by simp
    with True show ?thesis by (intro exI[of _ "[]"] exI[of _ xs]) simp
  next
    case False
    with Cons.prems have "find P xs = Some x" by simp
    from Cons.IH[OF this] obtain pre post where
      "xs = pre @ x # post" "P x" "\<forall>y \<in> set pre. \<not> P y" by blast
    with False show ?thesis by (intro exI[of _ "a # pre"] exI[of _ post]) simp
  qed
qed

lemma find_Some_member: "find P xs = Some x \<Longrightarrow> x \<in> set xs \<and> P x"
  by (induction xs) (auto split: if_splits)

lemma won_spec_iff: "won (checkWin_spec b player) \<longleftrightarrow> (\<exists>l \<in> set scanOrder. ownsLine b player l)"
  by (auto simp: checkWin_spec_def find_None_iff split: option.splits dest: find_Some_member)

section \<open>Properties of the server\<close>

subsection \<open>Room codes\<close>

lemma length_chars: "length chars = 32"
  by (simp add: chars_def)

lemma charAt_chars:
  assumes "0 \<le> x" "x < 1"
  shows "\<exists>c \<in> set chars. charAt chars \<lfloor>x * real (length chars)\<rfloor> = [c]"
proof -
  have a: "0 \<le> \<lfloor>x * 32\<rfloor>" using assms by simp
  have "x * 32 < 32" using assms by simp
  then have b: "\<lfloor>x * 32\<rfloor> < 32" by (simp add: floor_less_iff)
  from a b have "nat \<lfloor>x * 32\<rfloor> < length chars" unfolding length_chars by linarith
  then have "chars ! nat \<lfloor>x * 32\<rfloor> \<in> set chars" by (rule nth_mem)
  with a b show ?thesis by (simp add: charAt_def length_chars)
qed

lemma drawChars_result:
  "randomInRange rnd \<Longrightarrow> 0 \<le> i \<Longrightarrow> i \<le> 6 \<Longrightarrow> drawChars rnd k i acc = (c, k') \<Longrightarrow>
   length c = length acc + nat (6 - i) \<and> set c \<subseteq> set acc \<union> set chars"
proof (induction rnd k i acc rule: drawChars.induct)
  case (1 rnd k i acc)
  show ?case
  proof (cases "i < 6")
    case False
    then have "drawChars rnd k i acc = (acc, k)" by (subst drawChars.simps) simp
    with False "1.prems"(2,3,4) show ?thesis by simp
  next
    case True
    from "1.prems"(1) have "0 \<le> rnd k" "rnd k < 1" by (auto simp: randomInRange_def)
    from charAt_chars[OF this] obtain ch where ch: "ch \<in> set chars"
      "charAt chars \<lfloor>rnd k * real (length chars)\<rfloor> = [ch]" by blast
    have "drawChars rnd k i acc = drawChars rnd (k + 1) (i + 1) (acc @ [ch])"
      using True by (subst drawChars.simps) (simp add: ch)
    with "1.prems" have rec: "drawChars rnd (k + 1) (i + 1) (acc @ [ch]) = (c, k')" by simp
    from "1.IH"[OF True "1.prems"(1)] rec ch True "1.prems"(2)
    have "length c = length (acc @ [ch]) + nat (6 - (i + 1)) \<and>
          set c \<subseteq> set (acc @ [ch]) \<union> set chars" by simp
    with ch True "1.prems"(2) show ?thesis by auto
  qed
qed

lemma drawChars_calls: "0 \<le> i \<Longrightarrow> i \<le> 6 \<Longrightarrow> snd (drawChars rnd k i acc) = k + nat (6 - i)"
proof (induction rnd k i acc rule: drawChars.induct)
  case (1 rnd k i acc)
  show ?case
  proof (cases "i < 6")
    case False
    then have "drawChars rnd k i acc = (acc, k)" by (subst drawChars.simps) simp
    with False "1.prems" show ?thesis by simp
  next
    case True
    have "drawChars rnd k i acc =
          drawChars rnd (k + 1) (i + 1) (acc @ charAt chars \<lfloor>rnd k * real (length chars)\<rfloor>)"
      using True by (subst drawChars.simps) simp
    with "1.IH"[OF True] "1.prems" True show ?thesis by simp
  qed
qed

lemma drawChars_attempt: "drawChars rnd k 0 [] = (attemptCode rnd k 0, k + 6)"
  using drawChars_calls[of 0 rnd k "[]"] by (simp add: attemptCode_def prod_eq_iff)

lemma attemptCode_shift: "attemptCode rnd (k + 6) n = attemptCode rnd k (Suc n)"
  by (simp add: attemptCode_def add.assoc)

lemma generateGameCode_unfold:
  "generateGameCode rnd games k =
     (if games (attemptCode rnd k 0) \<noteq> None then generateGameCode rnd games (k + 6)
      else Some (attemptCode rnd k 0, k + 6))"
  by (subst generateGameCode.simps) (simp add: drawChars_attempt)

lemma generateGameCode_returns:
  "games (attemptCode rnd k n) = None \<Longrightarrow> (\<forall>m < n. games (attemptCode rnd k m) \<noteq> None) \<Longrightarrow>
   generateGameCode rnd games k = Some (attemptCode rnd k n, k + 6 * (n + 1))"
proof (induction n arbitrary: k)
  case 0
  then show ?case by (subst generateGameCode_unfold) simp
next
  case (Suc n)
  from Suc.prems(2) have first: "games (attemptCode rnd k 0) \<noteq> None" by blast
  have "generateGameCode rnd games (k + 6) = Some (attemptCode rnd (k + 6) n, k + 6 + 6 * (n + 1))"
  proof (rule Suc.IH)
    show "games (attemptCode rnd (k + 6) n) = None" using Suc.prems(1) by (simp add: attemptCode_shift)
    show "\<forall>m<n. games (attemptCode rnd (k + 6) m) \<noteq> None"
      using Suc.prems(2) by (auto simp: attemptCode_shift)
  qed
  with first show ?case by (subst generateGameCode_unfold) (simp add: attemptCode_shift)
qed

lemma generateGameCode_diverges:
  assumes "\<forall>m. games (attemptCode rnd k m) \<noteq> None"
  shows "generateGameCode rnd games k = None"
proof -
  define P where "P = (\<lambda>(r :: nat \<Rightarrow> real) (g :: registry) (j :: nat) (y :: string \<times> nat).
     \<not> (r = rnd \<and> g = games \<and> (\<exists>n. j = k + 6 * n)))"
  have "P rnd games k y" if ret: "generateGameCode rnd games k = Some y" for y
  proof (rule generateGameCode.raw_induct[where P = P, OF _ ret])
    fix f r g j y'
    assume IH: "\<And>r g j y. f r g j = Some y \<Longrightarrow> P r g j y"
      and eq: "(let (code, k') = drawChars r j 0 [] in
                if g code \<noteq> None then f r g k' else Some (code, k')) = Some y'"
    show "P r g j y'"
      unfolding P_def
    proof
      assume a: "r = rnd \<and> g = games \<and> (\<exists>n. j = k + 6 * n)"
      then obtain n where j: "j = k + 6 * n" by blast
      have live: "games (attemptCode rnd j 0) \<noteq> None"
        using assms by (simp add: attemptCode_def j)
      from eq a live have "f rnd games (j + 6) = Some y'"
        by (simp add: drawChars_attempt)
      from IH[OF this] have "\<not> (\<exists>m. j + 6 = k + 6 * m)" by (simp add: P_def)
      moreover have "j + 6 = k + 6 * Suc n" using j by simp
      ultimately show False by blast
    qed
  qed
  then have "generateGameCode rnd games k \<noteq> Some y" for y
    unfolding P_def using mult_0_right[of 6] by (metis add_0_right)
  then show ?thesis by (cases "generateGameCode rnd games k") auto
qed

lemma generateGameCode_some:
  assumes "generateGameCode rnd games k = Some (c, k')"
  shows "\<exists>n. c = attemptCode rnd k n \<and> k' = k + 6 * (n + 1) \<and> games c = None \<and>
             (\<forall>m < n. games (attemptCode rnd k m) \<noteq> None)"
proof -
  have "\<not> (\<forall>m. games (attemptCode rnd k m) \<noteq> None)"
  proof
    assume "\<forall>m. games (attemptCode rnd k m) \<noteq> None"
    from generateGameCode_diverges[OF this] assms show False by simp
  qed
  then have "\<exists>m. games (attemptCode rnd k m) = None" by simp
  then obtain n where n: "games (attemptCode rnd k n) = None"
    "\<forall>m < n. games (attemptCode rnd k m) \<noteq> None"
    using exists_least_iff[of "\<lambda>m. games (attemptCode rnd k m) = None"] by auto
  from generateGameCode_returns[OF n] assms n show ?thesis by auto
qed

lemma attempt0: "attemptCode (\<lambda>i. if i < 6 then 0 else 1 / 2) 0 0 = ''AAAAAA''"
  by code_simp

lemma attempt1: "attemptCode (\<lambda>i. if i < 6 then 0 else 1 / 2) 0 (Suc 0) = ''SSSSSS''"
  by code_simp

subsection \<open>Rematch requests\<close>

lemma fcard_ge2_iff:
  "2 \<le> fcard (finsert x A) \<longleftrightarrow> (\<exists>y. y |\<in>| A \<and> y \<noteq> x)"
proof
  assume a: "2 \<le> fcard (finsert x A)"
  show "\<exists>y. y |\<in>| A \<and> y \<noteq> x"
  proof (rule ccontr)
    assume "\<not> (\<exists>y. y |\<in>| A \<and> y \<noteq> x)"
    then have "finsert x A = {|x|}" by auto
    then have "fcard (finsert x A) = fcard {|x|}" by (rule arg_cong)
    moreover have "fcard {|x|} = 1" by (simp add: fcard_finsert_if fcard_fempty)
    ultimately show False using a by simp
  qed
next
  assume "\<exists>y. y |\<in>| A \<and> y \<noteq> x"
  then obtain y where y: "y |\<in>| A" "y \<noteq> x" by blast
  then have "{|x, y|} |\<subseteq>| finsert x A" by auto
  then have "fcard {|x, y|} \<le> fcard (finsert x A)" by (rule fcard_mono)
  moreover have "fcard {|x, y|} = 2" using y(2) by (simp add: fcard_finsert_if fcard_fempty)
  ultimately show "2 \<le> fcard (finsert x A)" by simp
qed

lemma fcard_two: "x \<noteq> y \<Longrightarrow> fcard {|x, y|} = 2"
  by (simp add: fcard_finsert_if fcard_fempty)

lemma fcard_one: "fcard {|x|} = 1"
  by (simp add: fcard_finsert_if fcard_fempty)

lemma rejoinedRegistry_eq:
  "rejoinedRegistry =
     [''AAAAAA'' \<mapsto> exampleRoom\<lparr>g_players := [''host'', ''bob''],
                                    g_gameState := Some (serialize (snd (makeMove reset 3))),
                                    g_rematchRequests := {|''carol''|}\<rparr>]"
  by (simp add: rejoinedRegistry_def onJoin_def onMove_def onRematch_def leaveGame_def
      getGame_def exampleRoom_def Let_def fcard_one)

text \<open>
  The handler in general: it adds the sender; when the set then has two members it
  clears the set, resets \<open>gameState\<close> and emits the one \<open>game:rematch\<close> broadcast;
  otherwise the set is the sender alone and the only emission is the notice to the
  other sockets of the room. In a room with two occupants, two members are what both
  occupants' requests give; they mean both occupants have requested only when the set
  holds requests of occupants, which the handler does not check.
\<close>

lemma onRematch_behaviour:
  assumes "games gameCode = Some room"
  shows
    "(2 \<le> fcard (finsert socketId (g_rematchRequests room)) \<longrightarrow>
        onRematch games socketId gameCode =
          (games(gameCode \<mapsto> room\<lparr>g_gameState := None, g_currentPlayer := 1,
                                     g_rematchRequests := {||}\<rparr>),
           [IoTo gameCode (GameRematch None)])) \<and>
     (fcard (finsert socketId (g_rematchRequests room)) < 2 \<longrightarrow>
        onRematch games socketId gameCode =
          (games(gameCode \<mapsto> room\<lparr>g_rematchRequests := {|socketId|}\<rparr>),
           [SocketTo socketId gameCode (GameRematchRequested socketId)]) \<and>
        finsert socketId (g_rematchRequests room) = {|socketId|}) \<and>
     (g_rematchRequests room = {|socketId|} \<longrightarrow>
        onRematch games socketId gameCode =
          (games, [SocketTo socketId gameCode (GameRematchRequested socketId)])) \<and>
     (g_players room = [a, b] \<and> a \<noteq> b \<longrightarrow>
        (a |\<in>| finsert socketId (g_rematchRequests room) \<and>
         b |\<in>| finsert socketId (g_rematchRequests room) \<longrightarrow>
           2 \<le> fcard (finsert socketId (g_rematchRequests room))) \<and>
        (socketId \<in> {a, b} \<and> g_rematchRequests room |\<subseteq>| {|a, b|} \<and>
         \<not> (a |\<in>| finsert socketId (g_rematchRequests room) \<and>
            b |\<in>| finsert socketId (g_rematchRequests room)) \<longrightarrow>
           fcard (finsert socketId (g_rematchRequests room)) < 2))"
proof -
  let ?R = "finsert socketId (g_rematchRequests room)"
  have one: "?R = {|socketId|}" if "fcard ?R < 2"
  proof -
    from that have "\<not> (\<exists>y. y |\<in>| g_rematchRequests room \<and> y \<noteq> socketId)"
      using fcard_ge2_iff[of socketId "g_rematchRequests room"] by auto
    then show ?thesis by auto
  qed
  have p1: "2 \<le> fcard ?R \<longrightarrow>
        onRematch games socketId gameCode =
          (games(gameCode \<mapsto> room\<lparr>g_gameState := None, g_currentPlayer := 1,
                                     g_rematchRequests := {||}\<rparr>),
           [IoTo gameCode (GameRematch None)])"
    using assms by (simp add: onRematch_def getGame_def Let_def)
  have p2: "fcard ?R < 2 \<longrightarrow>
        onRematch games socketId gameCode =
          (games(gameCode \<mapsto> room\<lparr>g_rematchRequests := {|socketId|}\<rparr>),
           [SocketTo socketId gameCode (GameRematchRequested socketId)]) \<and>
        ?R = {|socketId|}"
  proof
    assume lt: "fcard ?R < 2"
    from one[OF lt] have eq: "?R = {|socketId|}" .
    from lt assms have "onRematch games socketId gameCode =
          (games(gameCode \<mapsto> room\<lparr>g_rematchRequests := ?R\<rparr>),
           [SocketTo socketId gameCode (GameRematchRequested socketId)])"
      by (simp add: onRematch_def getGame_def Let_def)
    then have "onRematch games socketId gameCode =
          (games(gameCode \<mapsto> room\<lparr>g_rematchRequests := {|socketId|}\<rparr>),
           [SocketTo socketId gameCode (GameRematchRequested socketId)])"
      unfolding eq .
    from this eq show "onRematch games socketId gameCode =
          (games(gameCode \<mapsto> room\<lparr>g_rematchRequests := {|socketId|}\<rparr>),
           [SocketTo socketId gameCode (GameRematchRequested socketId)]) \<and>
        ?R = {|socketId|}" by (rule conjI)
  qed
  have p3: "g_rematchRequests room = {|socketId|} \<longrightarrow>
        onRematch games socketId gameCode =
          (games, [SocketTo socketId gameCode (GameRematchRequested socketId)])"
  proof
    assume r: "g_rematchRequests room = {|socketId|}"
    have "fcard {|socketId|} = 1" by (simp add: fcard_finsert_if fcard_fempty)
    with r have "fcard ?R < 2" by simp
    with p2 have "onRematch games socketId gameCode =
          (games(gameCode \<mapsto> room\<lparr>g_rematchRequests := {|socketId|}\<rparr>),
           [SocketTo socketId gameCode (GameRematchRequested socketId)])" by blast
    moreover have "room\<lparr>g_rematchRequests := {|socketId|}\<rparr> = room" using r by simp
    moreover have "games(gameCode \<mapsto> room) = games" using assms by (rule map_upd_triv)
    ultimately show "onRematch games socketId gameCode =
          (games, [SocketTo socketId gameCode (GameRematchRequested socketId)])"
      by simp
  qed
  have ge: "2 \<le> fcard ?R" if "a \<noteq> b" "a |\<in>| ?R" "b |\<in>| ?R"
    unfolding fcard_ge2_iff using that by auto
  have lt: "fcard ?R < 2"
    if "socketId \<in> {a, b}" "g_rematchRequests room |\<subseteq>| {|a, b|}"
       "\<not> (a |\<in>| ?R \<and> b |\<in>| ?R)"
  proof -
    from that have "\<not> (\<exists>y. y |\<in>| g_rematchRequests room \<and> y \<noteq> socketId)" by auto
    then have "\<not> 2 \<le> fcard ?R" unfolding fcard_ge2_iff .
    then show ?thesis by simp
  qed
  have p4: "g_players room = [a, b] \<and> a \<noteq> b \<longrightarrow>
        (a |\<in>| ?R \<and> b |\<in>| ?R \<longrightarrow> 2 \<le> fcard ?R) \<and>
        (socketId \<in> {a, b} \<and> g_rematchRequests room |\<subseteq>| {|a, b|} \<and>
         \<not> (a |\<in>| ?R \<and> b |\<in>| ?R) \<longrightarrow> fcard ?R < 2)"
  proof (intro impI conjI)
    assume h: "g_players room = [a, b] \<and> a \<noteq> b"
    show "2 \<le> fcard ?R" if "a |\<in>| ?R \<and> b |\<in>| ?R"
      using ge that h by blast
    show "fcard ?R < 2"
      if "socketId \<in> {a, b} \<and> g_rematchRequests room |\<subseteq>| {|a, b|} \<and>
          \<not> (a |\<in>| ?R \<and> b |\<in>| ?R)"
      using lt that by blast
  qed
  from p1 p2 p3 p4 show ?thesis by blast
qed

text \<open>Two occupants requesting in turn, the first of them twice: one broadcast.\<close>

lemma onRematch_two_requests:
  "onRematch [''AAAAAA'' \<mapsto> twoPlayerRoom] ''alice'' ''AAAAAA'' =
     ([''AAAAAA'' \<mapsto> twoPlayerRoom\<lparr>g_rematchRequests := {|''alice''|}\<rparr>],
      [SocketTo ''alice'' ''AAAAAA'' (GameRematchRequested ''alice'')]) \<and>
   onRematch [''AAAAAA'' \<mapsto> twoPlayerRoom\<lparr>g_rematchRequests := {|''alice''|}\<rparr>]
       ''alice'' ''AAAAAA'' =
     ([''AAAAAA'' \<mapsto> twoPlayerRoom\<lparr>g_rematchRequests := {|''alice''|}\<rparr>],
      [SocketTo ''alice'' ''AAAAAA'' (GameRematchRequested ''alice'')]) \<and>
   onRematch [''AAAAAA'' \<mapsto> twoPlayerRoom\<lparr>g_rematchRequests := {|''alice''|}\<rparr>]
       ''bob'' ''AAAAAA'' =
     ([''AAAAAA'' \<mapsto> twoPlayerRoom\<lparr>g_gameState := None, g_currentPlayer := 1,
                                              g_rematchRequests := {||}\<rparr>],
      [IoTo ''AAAAAA'' (GameRematch None)])"
proof -
  have c1: "fcard (finsert ''alice'' (g_rematchRequests twoPlayerRoom)) < 2" by code_simp
  have c2: "2 \<le> fcard (finsert ''bob''
      (g_rematchRequests (twoPlayerRoom\<lparr>g_rematchRequests := {|''alice''|}\<rparr>)))"
    by code_simp
  have p: "g_players twoPlayerRoom = [''alice'', ''bob'']" by (simp add: twoPlayerRoom_def)
  have r: "g_rematchRequests twoPlayerRoom = {||}" by (simp add: twoPlayerRoom_def)
  from onRematch_behaviour[of "[''AAAAAA'' \<mapsto> twoPlayerRoom]" "''AAAAAA''" twoPlayerRoom
         "''alice''" "''alice''" "''bob''"]
       onRematch_behaviour[of "[''AAAAAA'' \<mapsto> twoPlayerRoom\<lparr>g_rematchRequests := {|''alice''|}\<rparr>]"
         "''AAAAAA''" "twoPlayerRoom\<lparr>g_rematchRequests := {|''alice''|}\<rparr>"
         "''alice''" "''alice''" "''bob''"]
       onRematch_behaviour[of "[''AAAAAA'' \<mapsto> twoPlayerRoom\<lparr>g_rematchRequests := {|''alice''|}\<rparr>]"
         "''AAAAAA''" "twoPlayerRoom\<lparr>g_rematchRequests := {|''alice''|}\<rparr>"
         "''bob''" "''alice''" "''bob''"]
       c1 c2 p r
  show ?thesis by simp
qed

subsection \<open>Rooms stay under their own codes\<close>

lemma registryKeyed_createGame:
  assumes "registryKeyed games" and "createGame rnd games k hostId now = Some (room, games', k')"
  shows "registryKeyed games' \<and> games' (g_code room) = Some room"
  using assms
  by (auto simp: registryKeyed_def createGame_def Let_def
      split: option.splits prod.splits if_splits)

lemma registryKeyed_onJoin:
  "registryKeyed games \<Longrightarrow> registryKeyed (fst (onJoin games socketId gameCode))"
  by (auto simp: registryKeyed_def onJoin_def getGame_def split: option.splits if_splits)

lemma registryKeyed_leaveGame:
  "registryKeyed games \<Longrightarrow> registryKeyed (fst (leaveGame games socketId gameCode))"
  by (auto simp: registryKeyed_def leaveGame_def getGame_def Let_def split: option.splits if_splits)

lemma registryKeyed_onMove:
  "registryKeyed games \<Longrightarrow>
   registryKeyed (fst (onMove games socketId gameCode column row gameState))"
  by (auto simp: registryKeyed_def onMove_def getGame_def split: option.splits if_splits)

lemma registryKeyed_onRematch:
  "registryKeyed games \<Longrightarrow> registryKeyed (fst (onRematch games socketId gameCode))"
  by (auto simp: registryKeyed_def onRematch_def getGame_def Let_def split: option.splits if_splits)

section \<open>The board engine: results\<close>

text \<open>
  Claim C2. Let the board satisfy the gravity invariant and let its column \<open>c\<close> hold
  \<open>N\<close> pieces. If \<open>c\<close> is in \<open>0 .. COLS-1\<close> and \<open>N < ROWS\<close>, \<open>dropPiece\<close> succeeds with
  \<open>row = ROWS-1-N\<close> and returns a board equal to the input except that cell
  \<open>(ROWS-1-N, c)\<close> holds the player, a board of the same shape. If \<open>c\<close> is out of
  range or \<open>N = ROWS\<close>, it fails, with \<open>row = -1\<close> and the input board returned, the
  store untouched. In every case no array that existed
  before the call is changed, so the input board still has its value; and the result
  is the one the value-level \<open>dropPiece\<close> computes.
\<close>

theorem dropPiece_lands_without_mutation:
  assumes "wf_store_board st ref" and "gravity (boardOf st ref)"
    and "dropPiece_store st ref col player = (st', res)"
  shows
   "(0 \<le> col \<and> col < COLS \<and> columnPieces (boardOf st ref) col < ROWS \<longrightarrow>
       ds_success res \<and> ds_row res = ROWS - 1 - columnPieces (boardOf st ref) col \<and>
       wf_store_board st' (ds_board res) \<and>
       (\<forall>r c. cellAt (boardOf st' (ds_board res)) r c =
              (if r = ROWS - 1 - columnPieces (boardOf st ref) col \<and> c = col then Some player
               else cellAt (boardOf st ref) r c))) \<and>
    (col < 0 \<or> col \<ge> COLS \<or> columnPieces (boardOf st ref) col = ROWS \<longrightarrow>
       \<not> ds_success res \<and> ds_row res = - 1 \<and> ds_board res = ref \<and> st' = st) \<and>
    (\<forall>a < length st. st' ! a = st ! a) \<and> boardOf st' ref = boardOf st ref \<and>
    ds_success res = d_success (dropPiece (boardOf st ref) col player) \<and>
    ds_row res = d_row (dropPiece (boardOf st ref) col player) \<and>
    boardOf st' (ds_board res) = d_board (dropPiece (boardOf st ref) col player)"
proof -
  define b where "b = boardOf st ref"
  from assms(1) have wfb: "wf_board b" and ref: "ref < length st"
    and refs: "\<forall>r \<in> set (rowsOf (st ! ref)). r < length st"
    by (auto simp: wf_store_board_def b_def)
  note g = assms(2)[folded b_def]
  show ?thesis
  proof (cases "d_success (dropPiece b col player)")
    case False
    then have c: "col < 0 \<or> col \<ge> COLS \<or> columnPieces b col = ROWS"
      by (auto simp: dropPiece_success_iff columnPieces_full_iff)
    have nlt: "\<not> (0 \<le> col \<and> col < COLS \<and> columnPieces b col < ROWS)" using c by auto
    from dropPiece_store_fail[of st ref col player] False assms(3)
    have r: "st' = st" "res = \<lparr>ds_success = False, ds_row = - 1, ds_board = ref\<rparr>"
      by (auto simp: b_def)
    from dropPiece_fail[OF False] r nlt False show ?thesis
      by (simp add: b_def)
  next
    case True
    then have c: "0 \<le> col" "col < COLS" and "getLowestEmptyRow b col \<noteq> - 1"
      by (auto simp: dropPiece_success_iff)
    then have lt: "columnPieces b col < ROWS"
      using columnPieces_full_iff[of b col] columnPieces_le[of b col] by auto
    have land: "dropPiece b col player =
        \<lparr>d_success = True, d_row = ROWS - 1 - columnPieces b col,
          d_board = setCell b (ROWS - 1 - columnPieces b col) col player\<rparr>"
      by (rule dropPiece_lands[OF wfb g c lt])
    then have low: "getLowestEmptyRow b col = ROWS - 1 - columnPieces b col"
      using dropPiece_success[OF True] by simp
    from dropPiece_store_success[OF assms(1) True[unfolded b_def]] assms(3)
    have res: "res = \<lparr>ds_success = True, ds_row = getLowestEmptyRow b col,
                        ds_board = length st + length (rowsOf (st ! ref))\<rparr>"
      and old: "\<forall>a < length st. st' ! a = st ! a"
      and wf2: "wf_store_board st' (length st + length (rowsOf (st ! ref)))"
      and newb: "boardOf st' (length st + length (rowsOf (st ! ref))) =
                 setCell b (getLowestEmptyRow b col) col player"
      by (auto simp: b_def)
    have same: "boardOf st' ref = b"
      unfolding b_def by (rule boardOf_prefix[OF ref refs old])
    from lt columnPieces_le[of b col] have rowr: "0 \<le> ROWS - 1 - columnPieces b col"
      "ROWS - 1 - columnPieces b col < ROWS"
      using getLowestEmptyRow_result[OF low] by auto
    have cells: "cellAt (setCell b (ROWS - 1 - columnPieces b col) col player) r c' =
        (if r = ROWS - 1 - columnPieces b col \<and> c' = col then Some player else cellAt b r c')"
      for r c'
      by (rule cellAt_setCell[OF wfb rowr c])
    from lt c have nfull: "\<not> (col < 0 \<or> col \<ge> COLS \<or> columnPieces b col = ROWS)" by auto
    show ?thesis
      unfolding b_def[symmetric] using res old wf2 newb same low land cells nfull lt c
      by simp
  qed
qed

theorem dropPiece_lands_without_mutation_witness:
  "wf_store_board (storeOf (board (playMoves reset [3, 3]))) 6 \<and>
   gravity (boardOf (storeOf (board (playMoves reset [3, 3]))) 6) \<and>
   columnPieces (boardOf (storeOf (board (playMoves reset [3, 3]))) 6) 3 = 2 \<and>
   ds_success (snd (dropPiece_store (storeOf (board (playMoves reset [3, 3]))) 6 3 PLAYER_RED)) \<and>
   ds_row (snd (dropPiece_store (storeOf (board (playMoves reset [3, 3]))) 6 3 PLAYER_RED)) = 3 \<and>
   cellAt (boardOf (fst (dropPiece_store (storeOf (board (playMoves reset [3, 3]))) 6 3 PLAYER_RED))
       (ds_board (snd (dropPiece_store (storeOf (board (playMoves reset [3, 3]))) 6 3 PLAYER_RED))))
     3 3 = Some PLAYER_RED \<and>
   boardOf (fst (dropPiece_store (storeOf (board (playMoves reset [3, 3]))) 6 3 PLAYER_RED)) 6 =
     board (playMoves reset [3, 3]) \<and>
   \<not> ds_success (snd (dropPiece_store (storeOf (board (playMoves reset [3, 3]))) 6 7 PLAYER_RED))"
proof -
  let ?st = "storeOf (board (playMoves reset [3, 3]))"
  let ?in = "dropPiece_store ?st 6 3 PLAYER_RED"
  let ?out = "dropPiece_store ?st 6 7 PLAYER_RED"
  have wf: "wf_store_board ?st 6" by code_simp
  have g: "gravity (boardOf ?st 6)" by code_simp
  have n: "columnPieces (boardOf ?st 6) 3 = 2" by code_simp
  have b: "boardOf ?st 6 = board (playMoves reset [3, 3])" by code_simp
  have pre: "(0::int) \<le> 3 \<and> 3 < COLS \<and> columnPieces (boardOf ?st 6) 3 < ROWS"
    by (simp add: n consts_defs)
  have row: "ROWS - 1 - columnPieces (boardOf ?st 6) 3 = 3" by (simp add: n ROWS_def)
  have out: "(7::int) \<ge> COLS" by (simp add: COLS_def)
  note lands = dropPiece_lands_without_mutation[OF wf g surjective_pairing, of 3 PLAYER_RED]
  note fails = dropPiece_lands_without_mutation[OF wf g surjective_pairing, of 7 PLAYER_RED]
  from lands pre have landed:
    "ds_success (snd ?in) \<and>
     ds_row (snd ?in) = ROWS - 1 - columnPieces (boardOf ?st 6) 3 \<and>
     wf_store_board (fst ?in) (ds_board (snd ?in)) \<and>
     (\<forall>r c. cellAt (boardOf (fst ?in) (ds_board (snd ?in))) r c =
        (if r = ROWS - 1 - columnPieces (boardOf ?st 6) 3 \<and> c = 3 then Some PLAYER_RED
         else cellAt (boardOf ?st 6) r c))"
    by blast
  from landed have ok: "ds_success (snd ?in)" by blast
  from landed have r: "ds_row (snd ?in) = 3" unfolding row by blast
  from landed have "cellAt (boardOf (fst ?in) (ds_board (snd ?in))) 3 3 =
        (if 3 = ROWS - 1 - columnPieces (boardOf ?st 6) 3 \<and> (3::int) = 3 then Some PLAYER_RED
         else cellAt (boardOf ?st 6) 3 3)"
    by blast
  then have cell: "cellAt (boardOf (fst ?in) (ds_board (snd ?in))) 3 3 = Some PLAYER_RED"
    unfolding row by simp
  from lands have same: "boardOf (fst ?in) 6 = boardOf ?st 6" by blast
  from fails out have no: "\<not> ds_success (snd ?out)" by blast
  from wf g n ok r cell same b no show ?thesis by simp
qed

text \<open>
  Claim C3. On every board and for every player, \<open>checkWin\<close> returns what the
  specification asks: \<open>won = true\<close> with exactly the four coordinates of the first
  line of the fixed scan order (horizontal lines by rows then columns, then vertical
  lines, then the diagonals from bottom-left to top-right, then those from top-left to
  bottom-right) whose cells all hold the player, every earlier line of the order not
  being the player's; and \<open>won = false\<close> with no cells exactly when the board has no
  four consecutive cells of the player in any of the four orientations.
\<close>

theorem checkWin_first_in_scan_order:
  assumes "wf_board b"
  shows "checkWin b player = checkWin_spec b player \<and>
         (won (checkWin b player) \<longrightarrow>
            (\<exists>earlier later. scanOrder = earlier @ cells (checkWin b player) # later \<and>
               ownsLine b player (cells (checkWin b player)) \<and>
               (\<forall>line \<in> set earlier. \<not> ownsLine b player line))) \<and>
         (won (checkWin b player) \<longleftrightarrow> fourInARow b player) \<and>
         (won (checkWin b player) = False \<and> cells (checkWin b player) = [] \<longleftrightarrow>
            \<not> fourInARow b player)"
proof -
  have eq: "checkWin b player = checkWin_spec b player" by (rule checkWin_eq_spec)
  have w: "won (checkWin_spec b player) \<longleftrightarrow> fourInARow b player"
    using owned_line_fourInARow[of _ b player] fourInARow_owned_line[OF assms, of player]
    by (auto simp: won_spec_iff)
  have e: "\<not> won (checkWin_spec b player) \<Longrightarrow> cells (checkWin_spec b player) = []"
    by (simp add: checkWin_spec_def split: option.splits)
  have f: "\<exists>earlier later. scanOrder = earlier @ cells (checkWin_spec b player) # later \<and>
             ownsLine b player (cells (checkWin_spec b player)) \<and>
             (\<forall>line \<in> set earlier. \<not> ownsLine b player line)"
    if "won (checkWin_spec b player)"
  proof (cases "find (ownsLine b player) scanOrder")
    case None
    with that show ?thesis by (simp add: checkWin_spec_def)
  next
    case (Some l)
    then have "cells (checkWin_spec b player) = l" by (simp add: checkWin_spec_def)
    with find_Some_first[OF Some] show ?thesis by simp
  qed
  from eq w e f show ?thesis by auto
qed

theorem checkWin_first_in_scan_order_witness:
  "wf_board (board (playMoves reset [0, 0, 1, 1, 2, 2, 3])) \<and>
   checkWin (board (playMoves reset [0, 0, 1, 1, 2, 2, 3])) PLAYER_RED =
     \<lparr>won = True, cells = [(5, 0), (5, 1), (5, 2), (5, 3)]\<rparr> \<and>
   fourInARow (board (playMoves reset [0, 0, 1, 1, 2, 2, 3])) PLAYER_RED \<and>
   checkWin (board (playMoves reset [0, 0, 1, 1, 2, 2, 3])) PLAYER_YELLOW =
     \<lparr>won = False, cells = []\<rparr> \<and>
   \<not> fourInARow (board (playMoves reset [0, 0, 1, 1, 2, 2, 3])) PLAYER_YELLOW \<and>
   wf_board twoLinesBoard \<and>
   ownsLine twoLinesBoard PLAYER_RED [(2, 0), (3, 0), (4, 0), (5, 0)] \<and>
   checkWin_spec twoLinesBoard PLAYER_RED =
     \<lparr>won = True, cells = [(5, 0), (5, 1), (5, 2), (5, 3)]\<rparr>"
proof -
  have wf: "wf_board (board (playMoves reset [0, 0, 1, 1, 2, 2, 3]))" by code_simp
  have red: "checkWin (board (playMoves reset [0, 0, 1, 1, 2, 2, 3])) PLAYER_RED =
     \<lparr>won = True, cells = [(5, 0), (5, 1), (5, 2), (5, 3)]\<rparr>" by code_simp
  have yellow: "checkWin (board (playMoves reset [0, 0, 1, 1, 2, 2, 3])) PLAYER_YELLOW =
     \<lparr>won = False, cells = []\<rparr>" by code_simp
  have wf2: "wf_board twoLinesBoard" by code_simp
  have own: "ownsLine twoLinesBoard PLAYER_RED [(2, 0), (3, 0), (4, 0), (5, 0)]" by code_simp
  have two: "checkWin twoLinesBoard PLAYER_RED =
     \<lparr>won = True, cells = [(5, 0), (5, 1), (5, 2), (5, 3)]\<rparr>" by code_simp
  from checkWin_first_in_scan_order[OF wf, of PLAYER_RED]
       checkWin_first_in_scan_order[OF wf, of PLAYER_YELLOW]
       checkWin_first_in_scan_order[OF wf2, of PLAYER_RED] wf red yellow wf2 own two
  show ?thesis by simp
qed

text \<open>
  Claim C10. On a board that satisfies the gravity invariant, a column is listed by
  \<open>getValidColumns\<close> exactly when \<open>dropPiece\<close> into it succeeds, for every player
  value; and \<open>isColumnFull\<close>, which looks at the top cell only, is false exactly when
  the drop succeeds. This holds for every column argument, in range or not.
\<close>

theorem validColumns_iff_drop_succeeds:
  assumes "wf_board (board s)" and "gravity (board s)"
  shows "(col \<in> set (getValidColumns s) \<longleftrightarrow> d_success (dropPiece (board s) col player)) \<and>
         (\<not> isColumnFull (board s) col \<longleftrightarrow> d_success (dropPiece (board s) col player))"
proof -
  have a: "\<not> isColumnFull (board s) col \<longleftrightarrow> d_success (dropPiece (board s) col player)"
    using isColumnFull_iff_drop_fails[OF assms, of col player] by simp
  have "col \<in> set (getValidColumns s) \<longleftrightarrow> 0 \<le> col \<and> col < COLS \<and> \<not> isColumnFull (board s) col"
    by (simp add: getValidColumns_def set_validColumnsFrom)
  also have "\<dots> \<longleftrightarrow> d_success (dropPiece (board s) col player)"
    using a by (auto simp: dropPiece_success_iff)
  finally show ?thesis using a by simp
qed

theorem validColumns_iff_drop_succeeds_witness:
  "wf_board (board (playMoves reset [3, 3, 3, 3, 3, 3])) \<and>
   gravity (board (playMoves reset [3, 3, 3, 3, 3, 3])) \<and>
   getValidColumns (playMoves reset [3, 3, 3, 3, 3, 3]) = [0, 1, 2, 4, 5, 6] \<and>
   \<not> d_success (dropPiece (board (playMoves reset [3, 3, 3, 3, 3, 3])) 3 PLAYER_RED) \<and>
   d_success (dropPiece (board (playMoves reset [3, 3, 3, 3, 3, 3])) 2 PLAYER_RED)"
proof -
  have wf: "wf_board (board (playMoves reset [3, 3, 3, 3, 3, 3]))" by code_simp
  have g: "gravity (board (playMoves reset [3, 3, 3, 3, 3, 3]))" by code_simp
  have v: "getValidColumns (playMoves reset [3, 3, 3, 3, 3, 3]) = [0, 1, 2, 4, 5, 6]"
    by code_simp
  from validColumns_iff_drop_succeeds[OF wf g, of 3 PLAYER_RED]
       validColumns_iff_drop_succeeds[OF wf g, of 2 PLAYER_RED] wf g v
  show ?thesis by simp
qed

section \<open>The game state machine: results\<close>

text \<open>
  Claim C1. A move is rejected when the game is over, when the column is outside
  \<open>0 .. COLS-1\<close>, or when the column is full (it holds \<open>ROWS\<close> pieces): \<open>makeMove\<close>
  then returns the failure result (\<open>success = false\<close>, \<open>row = -1\<close>, no winner, no
  winning cells, no draw) and the state it returns is the state it was given, in every
  field.
\<close>

theorem makeMove_rejected_leaves_state:
  assumes "gameOver s \<or> col < 0 \<or> col \<ge> COLS \<or>
           (wf_board (board s) \<and> columnPieces (board s) col = ROWS)"
  shows "makeMove s col =
           (\<lparr>m_success = False, m_row = - 1, m_winner = None, m_winningCells = [],
             m_isDraw = False\<rparr>, s)"
proof (cases "gameOver s")
  case True
  then show ?thesis by (simp add: makeMove_def)
next
  case False
  with assms have "\<not> d_success (dropPiece (board s) col (currentPlayer s))"
    by (auto simp: dropPiece_success_iff columnPieces_full_iff)
  with False show ?thesis by (simp add: makeMove_def Let_def)
qed

theorem makeMove_rejected_leaves_state_witness:
  "wf_board (board (playMoves reset [3, 3, 3, 3, 3, 3])) \<and>
   columnPieces (board (playMoves reset [3, 3, 3, 3, 3, 3])) 3 = ROWS \<and>
   makeMove (playMoves reset [3, 3, 3, 3, 3, 3]) 3 =
     (\<lparr>m_success = False, m_row = - 1, m_winner = None, m_winningCells = [],
       m_isDraw = False\<rparr>, playMoves reset [3, 3, 3, 3, 3, 3]) \<and>
   makeMove reset 7 =
     (\<lparr>m_success = False, m_row = - 1, m_winner = None, m_winningCells = [],
       m_isDraw = False\<rparr>, reset) \<and>
   gameOver (playMoves reset [0, 0, 1, 1, 2, 2, 3]) \<and>
   makeMove (playMoves reset [0, 0, 1, 1, 2, 2, 3]) 4 =
     (\<lparr>m_success = False, m_row = - 1, m_winner = None, m_winningCells = [],
       m_isDraw = False\<rparr>, playMoves reset [0, 0, 1, 1, 2, 2, 3])"
proof -
  have full: "wf_board (board (playMoves reset [3, 3, 3, 3, 3, 3])) \<and>
              columnPieces (board (playMoves reset [3, 3, 3, 3, 3, 3])) 3 = ROWS"
    by code_simp
  have range: "(7::int) \<ge> COLS" by (simp add: COLS_def)
  have over: "gameOver (playMoves reset [0, 0, 1, 1, 2, 2, 3])" by code_simp
  show ?thesis
    using full range over
      makeMove_rejected_leaves_state[of "playMoves reset [3, 3, 3, 3, 3, 3]" 3]
      makeMove_rejected_leaves_state[of reset 7]
      makeMove_rejected_leaves_state[of "playMoves reset [0, 0, 1, 1, 2, 2, 3]" 4]
    by blast
qed

text \<open>
  Claim C4. After a successful move that ends with neither a win nor a draw,
  \<open>currentPlayer\<close> differs from its value before the move: it is the other player.
  After a failed move it is unchanged.
\<close>

theorem makeMove_turn_alternation:
  assumes "wf_board (board s)" and "makeMove s col = (res, s')"
  shows "(m_success res \<and> m_winner res = None \<and> \<not> m_isDraw res \<longrightarrow>
            currentPlayer s' \<noteq> currentPlayer s \<and>
            currentPlayer s' = getOtherPlayer (currentPlayer s)) \<and>
         (\<not> m_success res \<longrightarrow> currentPlayer s' = currentPlayer s)"
  using assms(2) getOtherPlayer_neq[of "currentPlayer s"]
  by (auto simp: makeMove_def Let_def split: if_splits)

theorem makeMove_turn_alternation_witness:
  "wf_board (board reset) \<and>
   m_success (fst (makeMove reset 3)) \<and>
   currentPlayer reset = PLAYER_RED \<and>
   currentPlayer (snd (makeMove reset 3)) = PLAYER_YELLOW \<and>
   \<not> m_success (fst (makeMove reset 7)) \<and>
   currentPlayer (snd (makeMove reset 7)) = PLAYER_RED"
proof -
  have wf: "wf_board (board reset)" by code_simp
  have ok: "m_success (fst (makeMove reset 3)) \<and> m_winner (fst (makeMove reset 3)) = None \<and>
            \<not> m_isDraw (fst (makeMove reset 3))" by code_simp
  have bad: "\<not> m_success (fst (makeMove reset 7))" by code_simp
  have cur: "currentPlayer reset = PLAYER_RED" by (simp add: reset_def)
  have other: "getOtherPlayer PLAYER_RED = PLAYER_YELLOW" by (simp add: getOtherPlayer_def)
  from makeMove_turn_alternation[OF wf, of 3 "fst (makeMove reset 3)" "snd (makeMove reset 3)"]
       makeMove_turn_alternation[OF wf, of 7 "fst (makeMove reset 7)" "snd (makeMove reset 7)"]
       wf ok bad cur other
  show ?thesis by simp
qed

text \<open>
  Claim C5. \<open>deserialize\<close> applied to the output of \<open>serialize s\<close> gives a state equal
  to \<open>s\<close> in every field (board, currentPlayer, winner, winningCells, isDraw,
  moveHistory, gameOver), whatever object \<open>t\<close> it is loaded into. This holds for every
  state \<open>s\<close>, so in particular for every state reachable from \<open>reset()\<close>, terminal or
  not.
\<close>

theorem serialize_deserialize_roundtrip:
  "deserialize t (serialize s) = s"
  by (simp add: deserialize_def serialize_def)

text \<open>
  Claim C6. Every state reachable from \<open>reset()\<close> by calls of \<open>makeMove\<close> has a board
  that satisfies the gravity invariant, and a successful \<open>makeMove\<close> on it leaves every
  cell that was not \<open>EMPTY\<close> as it was.
\<close>

theorem reachable_gravity_monotonic_fill:
  assumes "reachable s"
  shows "gravity (board s) \<and>
         (\<forall>col. m_success (fst (makeMove s col)) \<longrightarrow>
            (\<forall>r c. cellAt (board s) r c \<noteq> Some EMPTY \<longrightarrow>
               cellAt (board (snd (makeMove s col))) r c = cellAt (board s) r c))"
proof -
  from reachable_invariant[OF assms] have wf: "wf_board (board s)" and g: "gravity (board s)"
    by auto
  have "cellAt (board (snd (makeMove s col))) r c = cellAt (board s) r c"
    if "m_success (fst (makeMove s col))" "cellAt (board s) r c \<noteq> Some EMPTY" for col r c
    using that dropPiece_keeps_occupied[OF wf makeMove_success_drop[OF that(1)] that(2)]
    by (simp add: makeMove_board)
  with g show ?thesis by blast
qed

theorem reachable_gravity_monotonic_fill_witness:
  "reachable (playMoves reset [0, 0, 1]) \<and>
   gravity (board (playMoves reset [0, 0, 1])) \<and>
   cellAt (board (playMoves reset [0, 0, 1])) 4 0 = Some PLAYER_YELLOW \<and>
   cellAt (board (snd (makeMove (playMoves reset [0, 0, 1]) 0))) 4 0 = Some PLAYER_YELLOW"
proof -
  have r: "reachable (playMoves reset [0, 0, 1])"
    by (rule reachable_playMoves[OF reachable_reset])
  have ok: "m_success (fst (makeMove (playMoves reset [0, 0, 1]) 0))" by code_simp
  have c: "cellAt (board (playMoves reset [0, 0, 1])) 4 0 = Some PLAYER_YELLOW" by code_simp
  have ne: "Some PLAYER_YELLOW \<noteq> Some EMPTY" by (simp add: consts_defs)
  from reachable_gravity_monotonic_fill[OF r] r ok c ne show ?thesis by simp
qed

section \<open>The server: results\<close>

text \<open>
  Claim C7. The rematch handler adds the sender to \<open>rematchRequests\<close>; when both
  occupants have requested it clears the set, resets \<open>gameState\<close> to \<open>null\<close> and emits
  one rematch-started broadcast; while only one occupant has requested it notifies only
  the other occupant and changes neither \<open>gameState\<close> nor the request set.

  The code does not keep to this. Its test is \<open>rematchRequests.size >= 2\<close>, under the
  comment that both players requested, and \<open>leaveGame\<close> leaves the request of a socket
  that left in the set. In the room of \<open>host\<close>, after \<open>carol\<close> has joined, \<open>host\<close> has
  moved, \<open>carol\<close> has requested a rematch and left and \<open>bob\<close> has joined, the
  occupants are \<open>host\<close> and \<open>bob\<close>, the cached state is not \<open>null\<close> and the set holds
  \<open>carol\<close> alone. The request of \<open>host\<close>, the only occupant to request, then clears
  the set, resets the cached state to \<open>null\<close> and emits the rematch-started broadcast
  instead of the notice, though \<open>bob\<close> has not requested.
\<close>

theorem onRematch_stale_request_starts_rematch:
  "map_option g_players (rejoinedRegistry ''AAAAAA'') = Some [''host'', ''bob''] \<and>
   map_option g_rematchRequests (rejoinedRegistry ''AAAAAA'') = Some {|''carol''|} \<and>
   map_option g_gameState (rejoinedRegistry ''AAAAAA'') =
     Some (Some (serialize (snd (makeMove reset 3)))) \<and>
   ''bob'' |\<notin>| finsert ''host'' {|''carol''|} \<and>
   onRematch rejoinedRegistry ''host'' ''AAAAAA'' =
     ([''AAAAAA'' \<mapsto> exampleRoom\<lparr>g_players := [''host'', ''bob''], g_gameState := None,
                                     g_currentPlayer := 1, g_rematchRequests := {||}\<rparr>],
      [IoTo ''AAAAAA'' (GameRematch None)]) \<and>
   snd (onRematch rejoinedRegistry ''host'' ''AAAAAA'') \<noteq>
     [SocketTo ''host'' ''AAAAAA'' (GameRematchRequested ''host'')]"
  by (simp add: rejoinedRegistry_eq onRematch_def getGame_def Let_def fcard_two exampleRoom_def)

text \<open>
  Claim C8. A code that \<open>generateGameCode\<close> returns has length 6, each of its
  characters is one of \<open>ABCDEFGHJKLMNPQRSTUVWXYZ23456789\<close>, and it is not a key of the
  registry at that moment; when every room is stored under its own code, it differs
  from the code of every live room.
\<close>

theorem generateGameCode_well_formed_fresh:
  assumes "randomInRange rnd" and "generateGameCode rnd games k = Some (c, k')"
  shows "length c = 6 \<and> set c \<subseteq> set chars \<and> games c = None \<and>
         (registryKeyed games \<longrightarrow> (\<forall>key room. games key = Some room \<longrightarrow> g_code room \<noteq> c))"
proof -
  from generateGameCode_some[OF assms(2)] obtain n where
    c: "c = attemptCode rnd k n" and fresh: "games c = None" by blast
  have "drawChars rnd (k + 6 * n) 0 [] = (c, snd (drawChars rnd (k + 6 * n) 0 []))"
    by (simp add: c attemptCode_def)
  from drawChars_result[OF assms(1) _ _ this] have "length c = 6" "set c \<subseteq> set chars" by auto
  with fresh show ?thesis by (auto simp: registryKeyed_def)
qed

theorem generateGameCode_well_formed_fresh_witness:
  "randomInRange (\<lambda>i. if i < 6 then 0 else 1 / 2) \<and>
   generateGameCode (\<lambda>i. if i < 6 then 0 else 1 / 2) [''AAAAAA'' \<mapsto> exampleRoom] 0 =
     Some (''SSSSSS'', 12) \<and>
   length ''SSSSSS'' = 6 \<and> set ''SSSSSS'' \<subseteq> set chars \<and>
   [''AAAAAA'' \<mapsto> exampleRoom] ''SSSSSS'' = None"
proof -
  have r: "randomInRange (\<lambda>i. if i < 6 then 0 else 1 / 2)"
    by (simp add: randomInRange_def)
  have g: "generateGameCode (\<lambda>i. if i < 6 then 0 else 1 / 2) [''AAAAAA'' \<mapsto> exampleRoom] 0 =
     Some (''SSSSSS'', 12)"
    using generateGameCode_returns[of "[''AAAAAA'' \<mapsto> exampleRoom]"
        "\<lambda>i. if i < 6 then 0 else 1 / 2" 0 1]
    by (simp add: attempt0 attempt1)
  from generateGameCode_well_formed_fresh[OF r g] r g show ?thesis by simp
qed

text \<open>
  Claim C9 asks for a capped retry loop that reports an error when the cap is
  exhausted. The loop of \<open>generateGameCode\<close> has neither: with a registry that holds
  \<open>AAAAAA\<close> and a random source that keeps drawing \<open>AAAAAA\<close>, it never returns, and
  so neither does \<open>createGame\<close>.
\<close>

theorem generateGameCode_no_retry_cap_counterexample:
  "randomInRange (\<lambda>i. 0) \<and>
   generateGameCode (\<lambda>i. 0) [''AAAAAA'' \<mapsto> exampleRoom] 0 = None \<and>
   createGame (\<lambda>i. 0) [''AAAAAA'' \<mapsto> exampleRoom] 0 ''guest'' 0 = None"
proof -
  have range: "randomInRange (\<lambda>i. 0)" by (simp add: randomInRange_def)
  have "attemptCode (\<lambda>i. 0) 0 m = ''AAAAAA''" for m
  proof -
    have "drawChars (\<lambda>i. 0) j 0 [] = (''AAAAAA'', j + 6)" for j
      by (simp add: drawChars.simps[of _ _ _ "_"] charAt_def chars_def)
    then show ?thesis by (simp add: attemptCode_def)
  qed
  then have "\<forall>m. [''AAAAAA'' \<mapsto> exampleRoom] (attemptCode (\<lambda>i. 0) 0 m) \<noteq> None" by simp
  then have g: "generateGameCode (\<lambda>i. 0) [''AAAAAA'' \<mapsto> exampleRoom] 0 = None"
    by (rule generateGameCode_diverges)
  have "createGame (\<lambda>i. 0) [''AAAAAA'' \<mapsto> exampleRoom] 0 ''guest'' 0 = None"
    unfolding createGame_def g by simp
  with range g show ?thesis by blast
qed

text \<open>
  Claim C9 as the code has it. The loop has no retry cap and no error path: it returns
  in the first round whose code is not in the registry (after \<open>n + 1\<close> rounds when the
  codes of the first \<open>n\<close> rounds are live and the next is not), \<open>createGame\<close> then
  stores the new room under that code, and when every round draws a live code neither
  function returns.
\<close>

theorem generateGameCode_retries_until_fresh:
  "(games (attemptCode rnd k n) = None \<and> (\<forall>m < n. games (attemptCode rnd k m) \<noteq> None) \<longrightarrow>
      generateGameCode rnd games k = Some (attemptCode rnd k n, k + 6 * (n + 1)) \<and>
      createGame rnd games k hostId now =
        Some (\<lparr>g_code = attemptCode rnd k n, g_hostId = hostId, g_players = [hostId],
                g_gameState = None, g_currentPlayer = 1, g_createdAt = now,
                g_rematchRequests = {||}\<rparr>,
              games(attemptCode rnd k n \<mapsto>
                \<lparr>g_code = attemptCode rnd k n, g_hostId = hostId, g_players = [hostId],
                  g_gameState = None, g_currentPlayer = 1, g_createdAt = now,
                  g_rematchRequests = {||}\<rparr>),
              k + 6 * (n + 1))) \<and>
   ((\<forall>m. games (attemptCode rnd k m) \<noteq> None) \<longrightarrow>
      generateGameCode rnd games k = None \<and> createGame rnd games k hostId now = None)"
  using generateGameCode_returns[of games rnd k n] generateGameCode_diverges[of games rnd k]
  by (simp add: createGame_def Let_def)

theorem generateGameCode_retries_until_fresh_witness:
  "[''AAAAAA'' \<mapsto> exampleRoom] (attemptCode (\<lambda>i. if i < 6 then 0 else 1 / 2) 0 0) \<noteq> None \<and>
   [''AAAAAA'' \<mapsto> exampleRoom] (attemptCode (\<lambda>i. if i < 6 then 0 else 1 / 2) 0 1) = None \<and>
   generateGameCode (\<lambda>i. if i < 6 then 0 else 1 / 2) [''AAAAAA'' \<mapsto> exampleRoom] 0 =
     Some (''SSSSSS'', 12)"
  using generateGameCode_retries_until_fresh[of "[''AAAAAA'' \<mapsto> exampleRoom]"
      "\<lambda>i. if i < 6 then 0 else 1 / 2" 0 1 "''guest''" 0]
  by (simp add: attempt0 attempt1)

end
